theory Spec2Isabelle
  imports Main "HOL-Library.Word" "HOL-Library.Signed_Division"
begin

section \<open>Reading lines and tokens\<close>

text \<open>
  Both programs read the table with \<^verbatim>\<open>while (std::getline(file, line))\<close> and cut
  every line into tokens with \<^verbatim>\<open>while (getline(ss, temp_string, ' '))\<close>.
  One call of \<^verbatim>\<open>getline\<close> extracts characters up to the delimiter (which it
  consumes and drops) or up to the end of the stream; it fails, and the loop stops, when
  it could extract nothing at all. \<open>getline_loop d acc s\<close> is the list of strings the
  loop body sees on the remaining stream \<open>s\<close>, with \<open>acc\<close> the characters of the
  current call extracted so far, last one first.
\<close>

fun getline_loop :: "char \<Rightarrow> string \<Rightarrow> string \<Rightarrow> string list" where
  "getline_loop d acc [] = (if acc = [] then [] else [rev acc])"
| "getline_loop d acc (c # cs) =
     (if c = d then rev acc # getline_loop d [] cs else getline_loop d (c # acc) cs)"

definition file_lines :: "string \<Rightarrow> string list" where
  "file_lines content = getline_loop (CHR 0x0A) [] content"

definition line_tokens :: "string \<Rightarrow> string list" where
  "line_tokens line = getline_loop (CHR '' '') [] line"

section \<open>Conversion of a token by the big-integer library\<close>

text \<open>
  \<^verbatim>\<open>mpz_class(temp_string, 10)\<close> hands \<^verbatim>\<open>temp_string.c_str()\<close> to the library's
  \<^verbatim>\<open>mpz_set_str\<close> with base 10 and throws \<^verbatim>\<open>std::invalid_argument\<close> when that
  reports failure. The library is not part of the repository; the model follows its
  documented behaviour: the C string ends at the first NUL, white space before the number
  is skipped, one \<^verbatim>\<open>-\<close> may follow, the next character must be a digit of the base,
  and in what follows white space is ignored and every other character must be a digit.
\<close>

datatype error =
    InvalidArgument   \<comment> \<open>\<^verbatim>\<open>std::invalid_argument\<close> thrown by \<^verbatim>\<open>mpz_class\<close>, never caught\<close>
  | OutOfBounds       \<comment> \<open>\<^verbatim>\<open>v_nums[0]\<close> on an empty vector, \<^verbatim>\<open>prime_count[k]\<close> with \<open>k \<ge> 20\<close>: undefined behaviour\<close>
  | NonTermination    \<comment> \<open>the threshold loop never leaves\<close>
  | UnableToOpenFile  \<comment> \<open>the \<^verbatim>\<open>else\<close> branch of \<^verbatim>\<open>file.is_open()\<close>\<close>

definition isspace :: "char \<Rightarrow> bool" where
  "isspace c \<longleftrightarrow> c = CHR '' '' \<or> (9 \<le> (of_char c :: nat) \<and> (of_char c :: nat) \<le> 13)"

definition digit_value :: "char \<Rightarrow> nat" where
  "digit_value c =
     (let n = (of_char c :: nat)
      in if 48 \<le> n \<and> n \<le> 57 then n - 48
         else if 65 \<le> n \<and> n \<le> 90 then n - 55
         else if 97 \<le> n \<and> n \<le> 122 then n - 87
         else 255)"

definition mpz_set_str :: "string \<Rightarrow> int option" where
  "mpz_set_str str =
     (let s0 = takeWhile (\<lambda>c. c \<noteq> CHR 0x00) str;
          s1 = dropWhile isspace s0;
          negative = (s1 \<noteq> [] \<and> hd s1 = CHR ''-'');
          s2 = (if negative then tl s1 else s1)
      in if s2 = [] \<or> 10 \<le> digit_value (hd s2) then None
         else let ds = filter (\<lambda>c. \<not> isspace c) s2
              in if \<exists>c \<in> set ds. 10 \<le> digit_value c then None
                 else Some ((if negative then - 1 else 1)
                            * int (foldl (\<lambda>n c. 10 * n + digit_value c) 0 ds)))"

definition mpz_class :: "string \<Rightarrow> error + int" where
  "mpz_class temp_string =
     (case mpz_set_str temp_string of None \<Rightarrow> Inl InvalidArgument | Some z \<Rightarrow> Inr z)"

text \<open>
  The token loop pushes one \<^verbatim>\<open>mpz_class\<close> per token onto \<^verbatim>\<open>v_nums\<close>; the first
  token that does not convert throws.
\<close>

fun push_back_all :: "string list \<Rightarrow> error + int list" where
  "push_back_all [] = Inr []"
| "push_back_all (t # ts) =
     (case mpz_class t of
        Inl e \<Rightarrow> Inl e
      | Inr z \<Rightarrow> (case push_back_all ts of Inl e \<Rightarrow> Inl e | Inr zs \<Rightarrow> Inr (z # zs)))"

definition parse_line :: "string \<Rightarrow> error + int list" where
  "parse_line line = push_back_all (line_tokens line)"

section \<open>The histogram program (counter.cpp)\<close>

text \<open>
  The variables of \<^verbatim>\<open>main\<close> that outlive a line, and the rows written to standard
  output. A row is the twelve numbers \<^verbatim>\<open>prime_count[4]\<close> to \<^verbatim>\<open>prime_count[15]\<close> in
  print order; the fixed text printed between them is left out.
\<close>

record state =
  bound :: int
  counter :: "64 word"
  i :: "32 word"
  prime_count :: "32 word list"
  cout :: "32 word list list"

definition init_state :: state where
  "init_state = \<lparr> bound = 1000, counter = 0, i = 2, prime_count = replicate 20 0, cout = [] \<rparr>"

definition print_row :: "32 word list \<Rightarrow> 32 word list" where
  "print_row pc = map (\<lambda>j. pc ! j) [4..<15] @ [pc ! 15]"

text \<open>One pass through the body of \<^verbatim>\<open>while (bound < v_nums[0])\<close>.\<close>

definition scale_emit :: "state \<Rightarrow> state" where
  "scale_emit st =
     st\<lparr> i := i st + 1, bound := bound st * 10,
         cout := cout st @ [print_row (prime_count st)] \<rparr>"

partial_function (option) threshold_loop :: "int \<Rightarrow> state \<Rightarrow> state option" where
  "threshold_loop p st = (if bound st < p then threshold_loop p (scale_emit st) else Some st)"

text \<open>\<^verbatim>\<open>counter++; prime_count[v_nums.size()]++;\<close> on the array of 20 slots.\<close>

definition count_record :: "nat \<Rightarrow> state \<Rightarrow> error + state" where
  "count_record n st =
     (if n < 20
      then Inr (st\<lparr> counter := counter st + 1,
                    prime_count := (prime_count st)[n := prime_count st ! n + 1] \<rparr>)
      else Inl OutOfBounds)"

definition process_line :: "state \<Rightarrow> string \<Rightarrow> error + state" where
  "process_line st line =
     (case parse_line line of
        Inl e \<Rightarrow> Inl e
      | Inr v_nums \<Rightarrow>
          (case v_nums of
             [] \<Rightarrow> Inl OutOfBounds
           | p # _ \<Rightarrow>
               (case threshold_loop p st of
                  None \<Rightarrow> Inl NonTermination
                | Some st' \<Rightarrow> count_record (length v_nums) st')))"

text \<open>
  The loop over the lines. A line that fails ends the run there; the rows already written
  stay written, so the state reached is returned with the failure.
\<close>

fun run_lines :: "state \<Rightarrow> string list \<Rightarrow> state \<times> error option" where
  "run_lines st [] = (st, None)"
| "run_lines st (l # ls) =
     (case process_line st l of Inl e \<Rightarrow> (st, Some e) | Inr st' \<Rightarrow> run_lines st' ls)"

definition final_row :: "state \<Rightarrow> state" where
  "final_row st = st\<lparr> cout := cout st @ [print_row (prime_count st)] \<rparr>"

definition counter_lines :: "string list \<Rightarrow> state \<times> error option" where
  "counter_lines ls =
     (case run_lines init_state ls of
        (st, None) \<Rightarrow> (final_row st, None)
      | (st, Some e) \<Rightarrow> (st, Some e))"

definition counter_main :: "string option \<Rightarrow> 32 word list list \<times> error option" where
  "counter_main file =
     (case file of
        None \<Rightarrow> ([], Some UnableToOpenFile)
      | Some content \<Rightarrow> (case counter_lines (file_lines content) of (st, r) \<Rightarrow> (cout st, r)))"

section \<open>The divisibility filter (imprimitive.cpp)\<close>

definition divisor :: int where
  "divisor = 5717264681"

text \<open>
  \<^verbatim>\<open>%\<close> on \<^verbatim>\<open>mpz_class\<close> is the remainder of the division that truncates towards
  zero. \<open>out\<close> is the list of lines written to \<^verbatim>\<open>divisors.txt\<close>, each followed by
  \<^verbatim>\<open>std::endl\<close>.
\<close>

definition filter_line :: "string list \<Rightarrow> string \<Rightarrow> error + string list" where
  "filter_line out line =
     (case parse_line line of
        Inl e \<Rightarrow> Inl e
      | Inr v_nums \<Rightarrow>
          (case v_nums of
             [] \<Rightarrow> Inl OutOfBounds
           | p # _ \<Rightarrow> Inr (if 0 = p smod divisor then out @ [line] else out)))"

fun filter_lines :: "string list \<Rightarrow> string list \<Rightarrow> string list \<times> error option" where
  "filter_lines out [] = (out, None)"
| "filter_lines out (l # ls) =
     (case filter_line out l of Inl e \<Rightarrow> (out, Some e) | Inr out' \<Rightarrow> filter_lines out' ls)"

definition imprimitive_main :: "string option \<Rightarrow> string list \<times> error option" where
  "imprimitive_main file =
     (case file of
        None \<Rightarrow> ([], Some UnableToOpenFile)
      | Some content \<Rightarrow> filter_lines [] (file_lines content))"

section \<open>Notions used to state the properties\<close>

text \<open>
  \<open>scaled n st\<close> is the state after \<open>n\<close> passes through the body of the threshold
  loop: \<open>i\<close> incremented \<open>n\<close> times, \<open>bound\<close> multiplied by ten \<open>n\<close> times, and
  \<open>n\<close> rows printed, all of them the row of the counts held on entry.
\<close>

definition scaled :: "nat \<Rightarrow> state \<Rightarrow> state" where
  "scaled n st =
     st\<lparr> i := i st + of_nat n, bound := bound st * 10 ^ n,
         cout := cout st @ replicate n (print_row (prime_count st)) \<rparr>"

text \<open>
  The bucket the specification names for a line: the number of tokens after the first,
  at most 19.
\<close>

definition spec_bucket :: "string \<Rightarrow> nat" where
  "spec_bucket line = min (length (tl (line_tokens line))) 19"

text \<open>
  The principal of a line is its first token, converted. A record line is one whose
  tokens all convert and that has a principal. \<open>divisible_line\<close> is the test the
  specification gives for the filter, with the mathematical \<open>mod\<close>.
\<close>

definition principal :: "string \<Rightarrow> int option" where
  "principal line = (case line_tokens line of [] \<Rightarrow> None | t # _ \<Rightarrow> mpz_set_str t)"

definition record_line :: "string \<Rightarrow> bool" where
  "record_line line \<longleftrightarrow> (case parse_line line of Inr (p # ds) \<Rightarrow> True | _ \<Rightarrow> False)"

definition divisible_line :: "string \<Rightarrow> bool" where
  "divisible_line line \<longleftrightarrow>
     (case principal line of Some p \<Rightarrow> p mod 5717264681 = 0 | None \<Rightarrow> False)"

text \<open>
  \<open>tally ls j\<close> is the number of lines of \<open>ls\<close> that have exactly \<open>j\<close> tokens, and
  \<open>tally_row ls\<close> the row of these numbers for 4 to 15 tokens, as 32-bit values. A
  counter record is a record line of at most 19 tokens, the lines the array of 20 slots
  can count.
\<close>

definition tally :: "string list \<Rightarrow> nat \<Rightarrow> nat" where
  "tally ls j = length (filter (\<lambda>l. length (line_tokens l) = j) ls)"

definition tally_row :: "string list \<Rightarrow> 32 word list" where
  "tally_row ls = map (\<lambda>j. of_nat (tally ls j)) [4..<16]"

definition counter_record :: "string \<Rightarrow> bool" where
  "counter_record line \<longleftrightarrow>
     (case parse_line line of Inr (p # ds) \<Rightarrow> length ds < 19 | _ \<Rightarrow> False)"

text \<open>
  The relation between \<open>bound\<close> and \<open>i\<close>, stated through the number of rows the
  threshold loop has printed: every pass prints one row, so that number is the number of
  times the bound was multiplied by ten.
\<close>

definition threshold_inv :: "state \<Rightarrow> bool" where
  "threshold_inv st \<longleftrightarrow>
     bound st = 1000 * 10 ^ length (cout st) \<and> i st = 2 + of_nat (length (cout st))"

text \<open>The state after \<^verbatim>\<open>counter++; prime_count[k]++;\<close> with \<open>k\<close> in range.\<close>

definition counted :: "nat \<Rightarrow> state \<Rightarrow> state" where
  "counted k st =
     st\<lparr> counter := counter st + 1,
         prime_count := (prime_count st)[k := prime_count st ! k + 1] \<rparr>"

text \<open>
  Rows are compared component by component, as unsigned 32-bit values. \<open>rows_inv\<close>
  says that the rows printed so far never decrease from one to the next and that none
  exceeds the row of the counts now held.
\<close>

definition row_le :: "32 word list \<Rightarrow> 32 word list \<Rightarrow> bool" where
  "row_le r r' \<longleftrightarrow> list_all2 (\<le>) r r'"

definition rows_inv :: "state \<Rightarrow> bool" where
  "rows_inv st \<longleftrightarrow>
     sorted_wrt row_le (cout st) \<and> (\<forall>r \<in> set (cout st). row_le r (print_row (prime_count st)))"

section \<open>Evaluation on concrete lines\<close>

lemmas parse_simps =
  parse_line_def line_tokens_def mpz_class_def mpz_set_str_def isspace_def digit_value_def

lemma threshold_loop_stop: "\<not> bound st < p \<Longrightarrow> threshold_loop p st = Some st"
  by (subst threshold_loop.simps) simp

lemma threshold_loop_step:
  "bound st < p \<Longrightarrow> threshold_loop p st = threshold_loop p (scale_emit st)"
  by (subst threshold_loop.simps) simp

lemmas counter_simps =
  process_line_def init_state_def threshold_loop_stop threshold_loop_step scale_emit_def
  print_row_def count_record_def final_row_def counter_lines_def

section \<open>The threshold loop\<close>

lemma scaled_0: "scaled 0 st = st"
  by (simp add: scaled_def)

lemma scaled_Suc: "scaled n (scale_emit st) = scaled (Suc n) st"
  by (simp add: scaled_def scale_emit_def replicate_append_same)

lemma threshold_loop_scaled:
  "\<forall>k<n. bound st * 10 ^ k < p \<Longrightarrow> threshold_loop p st = threshold_loop p (scaled n st)"
proof (induction n arbitrary: st)
  case 0
  show ?case by (simp add: scaled_0)
next
  case (Suc n)
  have first: "bound st < p"
    using Suc.prems by fastforce
  have "\<forall>k<n. bound (scale_emit st) * 10 ^ k < p"
  proof (intro allI impI)
    fix k assume "k < n"
    then have "bound st * 10 ^ Suc k < p" using Suc.prems by blast
    then show "bound (scale_emit st) * 10 ^ k < p"
      by (simp add: scale_emit_def mult.assoc)
  qed
  then have "threshold_loop p (scale_emit st) = threshold_loop p (scaled n (scale_emit st))"
    by (rule Suc.IH)
  with first show ?case
    by (simp add: threshold_loop_step scaled_Suc)
qed

text \<open>A positive bound overtakes every principal after finitely many multiplications.\<close>

lemma crossing_exists:
  assumes "0 < (b::int)"
  shows "\<exists>n. (\<forall>k<n. b * 10 ^ k < p) \<and> \<not> b * 10 ^ n < p"
proof -
  have "p \<le> b * 10 ^ nat p"
  proof (cases "0 \<le> p")
    case True
    have "nat p < 10 ^ nat p"
      by (rule power_gt_expt) simp
    then have "int (nat p) < int (10 ^ nat p)"
      by (simp only: of_nat_less_iff)
    then have "p < 10 ^ nat p" using True by simp
    moreover have "(10::int) ^ nat p \<le> b * 10 ^ nat p"
      using assms by (simp add: mult_le_cancel_right1)
    ultimately show ?thesis by linarith
  next
    case False
    moreover have "0 < b * 10 ^ nat p" using assms by simp
    ultimately show ?thesis by linarith
  qed
  then have ex: "\<exists>n. \<not> b * 10 ^ n < p" by (metis not_less)
  define n where "n = (LEAST n. \<not> b * 10 ^ n < p)"
  have "\<not> b * 10 ^ n < p" unfolding n_def using ex by (rule LeastI_ex)
  moreover have "\<forall>k<n. b * 10 ^ k < p"
    unfolding n_def using not_less_Least by blast
  ultimately show ?thesis by blast
qed

lemma threshold_loop_closed:
  assumes "0 < bound st"
  shows "\<exists>n. threshold_loop p st = Some (scaled n st)
             \<and> (\<forall>k<n. bound st * 10 ^ k < p) \<and> \<not> bound st * 10 ^ n < p"
proof -
  obtain n where n: "\<forall>k<n. bound st * 10 ^ k < p" "\<not> bound st * 10 ^ n < p"
    using crossing_exists [OF assms] by blast
  have "threshold_loop p st = threshold_loop p (scaled n st)"
    using n(1) by (rule threshold_loop_scaled)
  also have "\<dots> = Some (scaled n st)"
    using n(2) by (intro threshold_loop_stop) (simp add: scaled_def)
  finally show ?thesis using n by blast
qed

section \<open>Tokens and conversion\<close>

lemma getline_loop_Nil_iff: "getline_loop d acc s = [] \<longleftrightarrow> acc = [] \<and> s = []"
  by (induction s arbitrary: acc) auto

lemma line_tokens_Nil_iff: "line_tokens line = [] \<longleftrightarrow> line = []"
  by (simp add: line_tokens_def getline_loop_Nil_iff)

lemma push_back_all_eq:
  "push_back_all ts =
     (if \<exists>t \<in> set ts. mpz_set_str t = None then Inl InvalidArgument
      else Inr (map (\<lambda>t. the (mpz_set_str t)) ts))"
  by (induction ts) (auto simp: mpz_class_def split: option.splits)

lemma push_back_all_fails:
  "\<exists>t \<in> set ts. mpz_set_str t = None \<Longrightarrow> push_back_all ts = Inl InvalidArgument"
  by (simp add: push_back_all_eq)

lemma push_back_all_succeeds:
  assumes "\<forall>t \<in> set ts. mpz_set_str t \<noteq> None"
  shows "\<exists>zs. push_back_all ts = Inr zs \<and> map Some zs = map mpz_set_str ts"
proof -
  have "push_back_all ts = Inr (map (\<lambda>t. the (mpz_set_str t)) ts)"
    using assms by (simp add: push_back_all_eq)
  moreover have "map Some (map (\<lambda>t. the (mpz_set_str t)) ts) = map mpz_set_str ts"
    using assms by (induction ts) auto
  ultimately show ?thesis by blast
qed

lemma push_back_all_error: "push_back_all ts = Inl e \<Longrightarrow> e = InvalidArgument"
  by (simp add: push_back_all_eq split: if_splits)

lemma push_back_all_length: "push_back_all ts = Inr zs \<Longrightarrow> length zs = length ts"
  by (auto simp: push_back_all_eq split: if_splits)

lemma parse_line_length: "parse_line line = Inr zs \<Longrightarrow> length zs = length (line_tokens line)"
  by (simp add: parse_line_def push_back_all_length)

lemma decimal_digit_props:
  assumes "c \<in> set ''0123456789''"
  shows "c \<noteq> CHR 0x00" "\<not> isspace c" "c \<noteq> CHR ''-''" "digit_value c < 10"
  using assms by (auto simp: isspace_def digit_value_def)

lemma mpz_set_str_digits:
  assumes "t \<noteq> []" and "set t \<subseteq> set ''0123456789''"
  shows "mpz_set_str t = Some (int (foldl (\<lambda>n c. 10 * n + digit_value c) 0 t))"
proof -
  have all: "\<And>c. c \<in> set t \<Longrightarrow> c \<in> set ''0123456789''"
    using assms(2) by blast
  have s0: "takeWhile (\<lambda>c. c \<noteq> CHR 0x00) t = t"
    by (rule takeWhile_eq_all_conv [THEN iffD2]) (use all decimal_digit_props(1) in blast)
  have hd_in: "hd t \<in> set ''0123456789''"
    using assms(1) all by (cases t) auto
  have s1: "dropWhile isspace t = t"
    using decimal_digit_props(2) [OF hd_in] assms(1) by (cases t) auto
  have neg: "hd t \<noteq> CHR ''-''"
    using decimal_digit_props(3) [OF hd_in] .
  have ds: "filter (\<lambda>c. \<not> isspace c) t = t"
    by (rule filter_True) (use all decimal_digit_props(2) in blast)
  have ok: "\<not> (\<exists>c \<in> set t. 10 \<le> digit_value c)"
    using all decimal_digit_props(4) by (metis not_le)
  have hd_ok: "\<not> 10 \<le> digit_value (hd t)"
    using decimal_digit_props(4) [OF hd_in] by simp
  show ?thesis
    unfolding mpz_set_str_def Let_def s0 s1 using assms(1) neg ds ok hd_ok by simp
qed

lemma mpz_set_str_decimal:
  assumes "t \<noteq> []" and "set t \<subseteq> set ''0123456789''"
  shows "mpz_set_str t \<noteq> None"
  using mpz_set_str_digits [OF assms] by simp

section \<open>The filter run\<close>

lemma record_line_iff: "record_line line \<longleftrightarrow> (\<exists>p ds. parse_line line = Inr (p # ds))"
  by (auto simp: record_line_def split: sum.splits list.splits)

lemma parse_line_principal:
  assumes "parse_line line = Inr (p # ds)"
  shows "principal line = Some p"
proof (cases "line_tokens line")
  case Nil
  then show ?thesis using assms by (simp add: parse_line_def)
next
  case (Cons t ts)
  then show ?thesis using assms
    by (auto simp: parse_line_def principal_def mpz_class_def split: option.splits sum.splits)
qed

lemma smod_zero_iff: "0 = (p::int) smod d \<longleftrightarrow> p mod d = 0"
proof -
  have "p smod d = 0 \<longleftrightarrow> p = 0 \<or> \<bar>p\<bar> mod \<bar>d\<bar> = 0"
    by (simp add: smod_int_alt_def sgn_eq_0_iff)
  also have "\<dots> \<longleftrightarrow> d dvd p"
    by (auto simp: mod_eq_0_iff_dvd)
  finally show ?thesis by (auto simp: mod_eq_0_iff_dvd)
qed

lemma filter_line_record:
  assumes "parse_line line = Inr (p # ds)"
  shows "filter_line out line = Inr (if p mod divisor = 0 then out @ [line] else out)"
  using assms by (simp add: filter_line_def smod_zero_iff)

lemma filter_line_divisible:
  assumes "record_line line"
  shows "filter_line out line = Inr (out @ filter divisible_line [line])"
proof -
  obtain p ds where p: "parse_line line = Inr (p # ds)"
    using assms record_line_iff by blast
  have "divisible_line line \<longleftrightarrow> p mod divisor = 0"
    by (simp add: divisible_line_def parse_line_principal [OF p] divisor_def)
  then show ?thesis
    by (simp add: filter_line_record [OF p])
qed

lemma filter_lines_records:
  "\<forall>l \<in> set ls. record_line l \<Longrightarrow>
   filter_lines out ls = (out @ filter divisible_line ls, None)"
proof (induction ls arbitrary: out)
  case Nil
  show ?case by simp
next
  case (Cons l ls)
  have "filter_line out l = Inr (out @ filter divisible_line [l])"
    using Cons.prems by (simp add: filter_line_divisible)
  moreover have "filter_lines (out @ filter divisible_line [l]) ls
      = ((out @ filter divisible_line [l]) @ filter divisible_line ls, None)"
    using Cons.prems by (intro Cons.IH) simp
  ultimately show ?case by simp
qed

lemma filter_line_not_record:
  assumes "\<not> record_line line"
  shows "\<exists>e. filter_line out line = Inl e"
  using assms
  by (auto simp: record_line_def filter_line_def split: sum.splits list.splits)

lemma filter_lines_general:
  "fst (filter_lines out ls) = out @ filter divisible_line (takeWhile record_line ls)
   \<and> (snd (filter_lines out ls) = None \<longleftrightarrow> (\<forall>l \<in> set ls. record_line l))"
proof (induction ls arbitrary: out)
  case Nil
  show ?case by simp
next
  case (Cons l ls)
  show ?case
  proof (cases "record_line l")
    case True
    then have "filter_line out l = Inr (out @ filter divisible_line [l])"
      by (rule filter_line_divisible)
    then show ?thesis
      using True Cons.IH [of "out @ filter divisible_line [l]"] by simp
  next
    case False
    then obtain e where "filter_line out l = Inl e"
      using filter_line_not_record by blast
    then show ?thesis using False by simp
  qed
qed

lemma filter_line_keeps:
  assumes "filter_line out line = Inr out'" and "l \<in> set out'" and "l \<notin> set out"
  shows "\<exists>p ds. parse_line l = Inr (p # ds) \<and> p mod divisor = 0"
  using assms
  by (auto simp: filter_line_def smod_zero_iff split: sum.splits list.splits if_splits)

lemma filter_lines_written:
  "\<forall>l \<in> set out. \<exists>p ds. parse_line l = Inr (p # ds) \<and> p mod divisor = 0 \<Longrightarrow>
   \<forall>l \<in> set (fst (filter_lines out ls)).
     \<exists>p ds. parse_line l = Inr (p # ds) \<and> p mod divisor = 0"
proof (induction ls arbitrary: out)
  case Nil
  then show ?case by simp
next
  case (Cons x xs)
  show ?case
  proof (cases "filter_line out x")
    case (Inl e)
    then show ?thesis using Cons.prems by simp
  next
    case (Inr out')
    have "\<forall>l \<in> set out'. \<exists>p ds. parse_line l = Inr (p # ds) \<and> p mod divisor = 0"
      using Cons.prems filter_line_keeps [OF Inr] by blast
    then show ?thesis using Cons.IH [of out'] Inr by simp
  qed
qed

section \<open>One line of the histogram program\<close>

lemma prime_count_scaled: "prime_count (scaled n st) = prime_count st"
  by (simp add: scaled_def)

lemma counter_scaled: "counter (scaled n st) = counter st"
  by (simp add: scaled_def)

lemma cout_scaled: "cout (scaled n st) = cout st @ replicate n (print_row (prime_count st))"
  by (simp add: scaled_def)

lemma bound_scaled: "bound (scaled n st) = bound st * 10 ^ n"
  by (simp add: scaled_def)

lemma i_scaled: "i (scaled n st) = i st + of_nat n"
  by (simp add: scaled_def)

lemma process_line_closed:
  assumes "0 < bound st" and "parse_line line = Inr (p # ds)"
  shows "\<exists>n. process_line st line = count_record (Suc (length ds)) (scaled n st)
             \<and> (\<forall>k<n. bound st * 10 ^ k < p) \<and> \<not> bound st * 10 ^ n < p"
proof -
  obtain n where n: "threshold_loop p st = Some (scaled n st)"
      "\<forall>k<n. bound st * 10 ^ k < p" "\<not> bound st * 10 ^ n < p"
    using threshold_loop_closed [OF assms(1)] by blast
  have "process_line st line = count_record (Suc (length ds)) (scaled n st)"
    by (simp add: process_line_def assms(2) n(1))
  with n show ?thesis by blast
qed

section \<open>Runs of the histogram program\<close>

lemma count_record_Inr: "count_record k st = Inr st' \<longleftrightarrow> k < 20 \<and> st' = counted k st"
  by (auto simp: count_record_def counted_def)

lemma process_line_Inr:
  assumes "0 < bound st" and "process_line st l = Inr st'"
  shows "\<exists>n p. st' = counted (length (line_tokens l)) (scaled n st)
           \<and> length (line_tokens l) < 20 \<and> line_tokens l \<noteq> []
           \<and> principal l = Some p
           \<and> (\<forall>k<n. bound st * 10 ^ k < p) \<and> \<not> bound st * 10 ^ n < p"
proof -
  obtain v where v: "parse_line l = Inr v"
    using assms(2) by (cases "parse_line l") (simp_all add: process_line_def)
  obtain p ds where pds: "v = p # ds"
    using assms(2) v by (cases v) (simp_all add: process_line_def)
  have len: "length (line_tokens l) = Suc (length ds)"
    using parse_line_length [OF v] pds by simp
  obtain n where n: "process_line st l = count_record (Suc (length ds)) (scaled n st)"
      "\<forall>k<n. bound st * 10 ^ k < p" "\<not> bound st * 10 ^ n < p"
    using process_line_closed [OF assms(1)] v pds by blast
  have "count_record (Suc (length ds)) (scaled n st) = Inr st'"
    using n(1) assms(2) by simp
  then have "Suc (length ds) < 20 \<and> st' = counted (Suc (length ds)) (scaled n st)"
    by (simp only: count_record_Inr)
  moreover have "principal l = Some p"
    using v pds by (simp add: parse_line_principal)
  moreover have "line_tokens l \<noteq> []"
    using len by auto
  ultimately show ?thesis using len n by auto
qed

lemma process_line_counter_record:
  assumes "0 < bound st" and "counter_record l"
  shows "\<exists>st'. process_line st l = Inr st'"
proof -
  obtain p ds where p: "parse_line l = Inr (p # ds)" "length ds < 19"
    using assms(2) by (auto simp: counter_record_def split: sum.splits list.splits)
  obtain n where "process_line st l = count_record (Suc (length ds)) (scaled n st)"
    using process_line_closed [OF assms(1) p(1)] by blast
  then show ?thesis using p(2) by (simp add: count_record_def)
qed

lemma bound_counted: "bound (counted k st) = bound st"
  and i_counted: "i (counted k st) = i st"
  and cout_counted: "cout (counted k st) = cout st"
  and counter_counted: "counter (counted k st) = counter st + 1"
  and prime_count_counted:
    "prime_count (counted k st) = (prime_count st)[k := prime_count st ! k + 1]"
  by (simp_all add: counted_def)

lemmas step_simps =
  bound_counted i_counted cout_counted counter_counted prime_count_counted
  bound_scaled i_scaled cout_scaled counter_scaled prime_count_scaled

lemma process_line_bound_pos:
  assumes "0 < bound st" and "process_line st l = Inr st'"
  shows "0 < bound st'"
  using process_line_Inr [OF assms] assms(1) by (auto simp: step_simps)

lemma process_line_threshold_inv:
  assumes "threshold_inv st" and "process_line st l = Inr st'"
  shows "threshold_inv st'"
proof -
  have pos: "0 < bound st" using assms(1) by (simp add: threshold_inv_def)
  obtain n where "st' = counted (length (line_tokens l)) (scaled n st)"
    using process_line_Inr [OF pos assms(2)] by blast
  then show ?thesis
    using assms(1) by (simp add: threshold_inv_def step_simps power_add)
qed

lemma run_lines_threshold_inv:
  "threshold_inv st \<Longrightarrow> threshold_inv (fst (run_lines st ls))"
proof (induction ls arbitrary: st)
  case Nil
  then show ?case by simp
next
  case (Cons l ls)
  show ?case
  proof (cases "process_line st l")
    case (Inl e)
    then show ?thesis using Cons.prems by simp
  next
    case (Inr st')
    then show ?thesis
      using Cons.IH [OF process_line_threshold_inv [OF Cons.prems Inr]] by simp
  qed
qed

lemma threshold_inv_init: "threshold_inv init_state"
  by (simp add: threshold_inv_def init_state_def)

lemma unat_magnitude:
  assumes "k < 2 ^ 32 - 2"
  shows "unat (2 + of_nat k :: 32 word) = 2 + k"
proof -
  have "unat (of_nat (2 + k) :: 32 word) = (2 + k) mod 2 ^ LENGTH(32)"
    by (rule unat_of_nat)
  also have "\<dots> = 2 + k" using assms by simp
  finally show ?thesis by simp
qed


lemma scale_emit_threshold_inv:
  assumes "threshold_inv st"
  shows "threshold_inv (scale_emit st) \<and> bound st < bound (scale_emit st)"
  using assms by (simp add: threshold_inv_def scale_emit_def)

lemma process_line_bound_mono:
  assumes "0 < bound st" and "process_line st l = Inr st'"
  shows "bound st \<le> bound st'"
proof -
  obtain n where "st' = counted (length (line_tokens l)) (scaled n st)"
    using process_line_Inr [OF assms] by blast
  then have "bound st' = bound st * 10 ^ n" by (simp add: step_simps)
  moreover have "bound st * 1 \<le> bound st * 10 ^ n"
    using assms(1) by (intro mult_left_mono) simp_all
  ultimately show ?thesis by simp
qed

lemma getline_loop_no_delim:
  "d \<notin> set s \<Longrightarrow> acc \<noteq> [] \<or> s \<noteq> [] \<Longrightarrow> getline_loop d acc s = [rev acc @ s]"
  by (induction s arbitrary: acc) auto

lemma foldl_zeros:
  "foldl (\<lambda>n c. 10 * n + digit_value c) a (replicate m (CHR ''0'')) = a * 10 ^ m"
  by (induction m arbitrary: a) (simp_all add: digit_value_def)

lemma mpz_set_str_power_of_ten:
  "mpz_set_str (CHR ''1'' # replicate m (CHR ''0'')) = Some (10 ^ m)"
proof -
  have "mpz_set_str (CHR ''1'' # replicate m (CHR ''0''))
      = Some (int (foldl (\<lambda>n c. 10 * n + digit_value c) 0 (CHR ''1'' # replicate m (CHR ''0''))))"
    by (rule mpz_set_str_digits) auto
  also have "foldl (\<lambda>n c. 10 * n + digit_value c) 0 (CHR ''1'' # replicate m (CHR ''0'')) = 10 ^ m"
    by (simp add: foldl_zeros) (simp add: digit_value_def)
  finally show ?thesis by simp
qed

lemma parse_line_power_of_ten:
  "parse_line (CHR ''1'' # replicate m (CHR ''0'')) = Inr [10 ^ m]"
proof -
  have "line_tokens (CHR ''1'' # replicate m (CHR ''0'')) = [CHR ''1'' # replicate m (CHR ''0'')]"
    unfolding line_tokens_def
    using getline_loop_no_delim [of "CHR '' ''" "CHR ''1'' # replicate m (CHR ''0'')" "[]"]
    by simp
  then show ?thesis
    by (simp add: parse_line_def mpz_class_def mpz_set_str_power_of_ten)
qed

lemma run_power_of_ten:
  "run_lines init_state [CHR ''1'' # replicate (n + 3) (CHR ''0'')]
     = (counted 1 (scaled n init_state), None)"
proof -
  let ?p = "(10::int) ^ (n + 3)"
  have b: "bound init_state = 10 ^ 3" by (simp add: init_state_def)
  have below: "\<forall>k<n. bound init_state * 10 ^ k < ?p"
  proof (intro allI impI)
    fix k assume "k < n"
    then have "(10::int) ^ (k + 3) < 10 ^ (n + 3)"
      by (intro power_strict_increasing) simp_all
    then show "bound init_state * 10 ^ k < ?p"
      unfolding b by (simp only: power_add mult.commute)
  qed
  have "threshold_loop ?p init_state = threshold_loop ?p (scaled n init_state)"
    using below by (rule threshold_loop_scaled)
  also have "\<dots> = Some (scaled n init_state)"
    by (rule threshold_loop_stop) (simp only: bound_scaled b power_add mult.commute less_irrefl not_False_eq_True)
  finally have loop: "threshold_loop ?p init_state = Some (scaled n init_state)" .
  have "process_line init_state (CHR ''1'' # replicate (n + 3) (CHR ''0''))
      = Inr (counted 1 (scaled n init_state))"
    by (simp add: process_line_def parse_line_power_of_ten loop count_record_Inr)
  then show ?thesis by simp
qed

lemma counter_wraps:
  assumes "of_nat n = (0::32 word)" and "0 < n"
  shows "case run_lines init_state [CHR ''1'' # replicate (n + 3) (CHR ''0'')] of
           (st, r) \<Rightarrow> r = None \<and> i st = 2 \<and> bound st \<noteq> 1000 * 10 ^ (unat (i st) - 2)"
proof -
  have "(1::int) < 10 ^ n"
    using assms(2) by (intro one_less_power) simp_all
  then have "(1000::int) * 10 ^ n \<noteq> 1000"
    by simp
  then have ne: "(1000::int) * 10 ^ n \<noteq> 1000 * 10 ^ (unat (2::32 word) - 2)"
    by simp
  have i2: "i (counted 1 (scaled n init_state)) = 2"
    by (simp add: step_simps assms(1) init_state_def)
  have b: "bound (counted 1 (scaled n init_state)) = 1000 * 10 ^ n"
    by (simp add: step_simps init_state_def)
  show ?thesis
    unfolding run_power_of_ten using ne by (simp only: prod.case i2 b) simp
qed

lemma run_lines_append:
  "run_lines st (xs @ ys) =
     (case run_lines st xs of (st1, None) \<Rightarrow> run_lines st1 ys | (st1, Some e) \<Rightarrow> (st1, Some e))"
  by (induction xs arbitrary: st) (auto split: sum.splits)

lemma run_lines_total:
  "0 < bound st \<Longrightarrow> \<forall>l \<in> set ls. counter_record l \<Longrightarrow> snd (run_lines st ls) = None"
proof (induction ls arbitrary: st)
  case Nil
  show ?case by simp
next
  case (Cons l ls)
  obtain st' where step: "process_line st l = Inr st'"
    using process_line_counter_record [OF Cons.prems(1)] Cons.prems(2) by auto
  have "0 < bound st'"
    using process_line_bound_pos [OF Cons.prems(1) step] .
  then have "snd (run_lines st' ls) = None"
    using Cons.prems(2) by (intro Cons.IH) simp_all
  then show ?case using step by simp
qed

lemma tally_Cons:
  "tally (l # ls) j = (if length (line_tokens l) = j then 1 else 0) + tally ls j"
  by (simp add: tally_def)

lemma run_lines_tally:
  assumes "0 < bound st" and "length (prime_count st) = 20" and "run_lines st ls = (st', None)"
  shows "length (prime_count st') = 20
         \<and> (\<forall>j<20. prime_count st' ! j = prime_count st ! j + of_nat (tally ls j))"
  using assms
proof (induction ls arbitrary: st)
  case Nil
  then show ?case by (simp add: tally_def)
next
  case (Cons l ls)
  obtain st1 where step: "process_line st l = Inr st1"
    using Cons.prems(3) by (cases "process_line st l") simp_all
  have rest: "run_lines st1 ls = (st', None)"
    using Cons.prems(3) step by simp
  obtain n where st1: "st1 = counted (length (line_tokens l)) (scaled n st)"
      and k: "length (line_tokens l) < 20"
    using process_line_Inr [OF Cons.prems(1) step] by blast
  have pos1: "0 < bound st1"
    using process_line_bound_pos [OF Cons.prems(1) step] .
  have pc1: "prime_count st1
      = (prime_count st)[length (line_tokens l) := prime_count st ! length (line_tokens l) + 1]"
    by (simp add: st1 step_simps)
  have len1: "length (prime_count st1) = 20"
    using Cons.prems(2) by (simp add: pc1)
  have ih: "length (prime_count st') = 20
      \<and> (\<forall>j<20. prime_count st' ! j = prime_count st1 ! j + of_nat (tally ls j))"
    using Cons.IH [OF pos1 len1 rest] .
  have "\<forall>j<20. prime_count st' ! j = prime_count st ! j + of_nat (tally (l # ls) j)"
  proof (intro allI impI)
    fix j :: nat assume j: "j < 20"
    have "prime_count st1 ! j
        = prime_count st ! j + (if length (line_tokens l) = j then 1 else 0)"
      using j k Cons.prems(2) by (simp add: pc1 nth_list_update)
    then show "prime_count st' ! j = prime_count st ! j + of_nat (tally (l # ls) j)"
      using ih j by (simp add: tally_Cons)
  qed
  with ih show ?case by blast
qed

lemma upt_4_16: "[4..<16] = [4..<15] @ [15::nat]"
  by (simp add: upt_rec)

lemma print_row_eq: "print_row pc = map (\<lambda>j. pc ! j) [4..<16]"
  by (simp only: print_row_def upt_4_16 map_append list.map)

lemma print_row_tally:
  assumes "\<forall>j<20. pc ! j = of_nat (tally ls j)"
  shows "print_row pc = tally_row ls"
  unfolding print_row_eq tally_row_def using assms by (intro map_cong) auto

lemma run_lines_init_tally:
  assumes "run_lines init_state ls = (st, None)"
  shows "print_row (prime_count st) = tally_row ls"
proof -
  have "0 < bound init_state" "length (prime_count init_state) = 20"
    by (simp_all add: init_state_def)
  from run_lines_tally [OF this assms]
  have "\<forall>j<20. prime_count st ! j = prime_count init_state ! j + of_nat (tally ls j)"
    by blast
  then have "\<forall>j<20. prime_count st ! j = of_nat (tally ls j)"
    by (simp add: init_state_def)
  then show ?thesis by (rule print_row_tally)
qed

lemma length_tally_row: "length (tally_row ls) = 12"
  by (simp add: tally_row_def)

section \<open>A run of four records\<close>

lemmas step_eval =
  process_line_def threshold_loop_stop threshold_loop_step scale_emit_def print_row_def
  count_record_def

lemma ex_parse_1: "parse_line ''500 2 5 10'' = Inr [500, 2, 5, 10]"
  and ex_parse_2: "parse_line ''5000 2 4 5 10'' = Inr [5000, 2, 4, 5, 10]"
  and ex_parse_3: "parse_line ''50000 2 4 5 8 10'' = Inr [50000, 2, 4, 5, 8, 10]"
  and ex_parse_4: "parse_line ''500000 2 4 5 8 10 16'' = Inr [500000, 2, 4, 5, 8, 10, 16]"
  by (simp_all add: parse_simps)

lemma ex_step_1: "process_line init_state ''500 2 5 10''
    = Inr \<lparr> bound = 1000, counter = 1, i = 2,
            prime_count = [0, 0, 0, 0, 1, 0, 0, 0, 0, 0, 0, 0, 0, 0, 0, 0, 0, 0, 0, 0],
            cout = [] \<rparr>"
  by (simp add: step_eval ex_parse_1 init_state_def eval_nat_numeral)

lemma ex_step_2: "process_line \<lparr> bound = 1000, counter = 1, i = 2,
            prime_count = [0, 0, 0, 0, 1, 0, 0, 0, 0, 0, 0, 0, 0, 0, 0, 0, 0, 0, 0, 0],
            cout = [] \<rparr> ''5000 2 4 5 10''
    = Inr \<lparr> bound = 10000, counter = 2, i = 3,
            prime_count = [0, 0, 0, 0, 1, 1, 0, 0, 0, 0, 0, 0, 0, 0, 0, 0, 0, 0, 0, 0],
            cout = [[1, 0, 0, 0, 0, 0, 0, 0, 0, 0, 0, 0]] \<rparr>"
  by (simp add: step_eval ex_parse_2 eval_nat_numeral)

lemma ex_step_3: "process_line \<lparr> bound = 10000, counter = 2, i = 3,
            prime_count = [0, 0, 0, 0, 1, 1, 0, 0, 0, 0, 0, 0, 0, 0, 0, 0, 0, 0, 0, 0],
            cout = [[1, 0, 0, 0, 0, 0, 0, 0, 0, 0, 0, 0]] \<rparr> ''50000 2 4 5 8 10''
    = Inr \<lparr> bound = 100000, counter = 3, i = 4,
            prime_count = [0, 0, 0, 0, 1, 1, 1, 0, 0, 0, 0, 0, 0, 0, 0, 0, 0, 0, 0, 0],
            cout = [[1, 0, 0, 0, 0, 0, 0, 0, 0, 0, 0, 0],
                    [1, 1, 0, 0, 0, 0, 0, 0, 0, 0, 0, 0]] \<rparr>"
  by (simp add: step_eval ex_parse_3 eval_nat_numeral)

lemma ex_step_4: "process_line \<lparr> bound = 100000, counter = 3, i = 4,
            prime_count = [0, 0, 0, 0, 1, 1, 1, 0, 0, 0, 0, 0, 0, 0, 0, 0, 0, 0, 0, 0],
            cout = [[1, 0, 0, 0, 0, 0, 0, 0, 0, 0, 0, 0],
                    [1, 1, 0, 0, 0, 0, 0, 0, 0, 0, 0, 0]] \<rparr> ''500000 2 4 5 8 10 16''
    = Inr \<lparr> bound = 1000000, counter = 4, i = 5,
            prime_count = [0, 0, 0, 0, 1, 1, 1, 1, 0, 0, 0, 0, 0, 0, 0, 0, 0, 0, 0, 0],
            cout = [[1, 0, 0, 0, 0, 0, 0, 0, 0, 0, 0, 0],
                    [1, 1, 0, 0, 0, 0, 0, 0, 0, 0, 0, 0],
                    [1, 1, 1, 0, 0, 0, 0, 0, 0, 0, 0, 0]] \<rparr>"
  by (simp add: step_eval ex_parse_4 eval_nat_numeral)

lemma four_records_run:
  "counter_lines
        [''500 2 5 10'', ''5000 2 4 5 10'', ''50000 2 4 5 8 10'', ''500000 2 4 5 8 10 16'']
      = (\<lparr> bound = 1000000, counter = 4, i = 5,
            prime_count = [0, 0, 0, 0, 1, 1, 1, 1, 0, 0, 0, 0, 0, 0, 0, 0, 0, 0, 0, 0],
            cout = [[1, 0, 0, 0, 0, 0, 0, 0, 0, 0, 0, 0],
                    [1, 1, 0, 0, 0, 0, 0, 0, 0, 0, 0, 0],
                    [1, 1, 1, 0, 0, 0, 0, 0, 0, 0, 0, 0],
                    [1, 1, 1, 1, 0, 0, 0, 0, 0, 0, 0, 0]] \<rparr>, None)"
  by (simp add: counter_lines_def ex_step_1 ex_step_2 ex_step_3 ex_step_4 final_row_def print_row_def)

section \<open>Sums of the buckets\<close>

lemma sum_list_bump:
  fixes xs :: "'a::len word list"
  shows "k < length xs \<Longrightarrow> sum_list (xs[k := xs ! k + 1]) = sum_list xs + 1"
proof (induction xs arbitrary: k)
  case Nil
  then show ?case by simp
next
  case (Cons x xs)
  then show ?case by (cases k) simp_all
qed

lemma run_lines_sum:
  assumes "0 < bound st" and "length (prime_count st) = 20" and "run_lines st ls = (st', None)"
  shows "sum_list (prime_count st') = sum_list (prime_count st) + of_nat (length ls)
         \<and> counter st' = counter st + of_nat (length ls)"
  using assms
proof (induction ls arbitrary: st)
  case Nil
  then show ?case by simp
next
  case (Cons l ls)
  obtain st1 where step: "process_line st l = Inr st1"
    using Cons.prems(3) by (cases "process_line st l") simp_all
  have rest: "run_lines st1 ls = (st', None)"
    using Cons.prems(3) step by simp
  obtain n where st1: "st1 = counted (length (line_tokens l)) (scaled n st)"
      and k: "length (line_tokens l) < 20"
    using process_line_Inr [OF Cons.prems(1) step] by blast
  have pos1: "0 < bound st1"
    using process_line_bound_pos [OF Cons.prems(1) step] .
  have len1: "length (prime_count st1) = 20"
    using Cons.prems(2) by (simp add: st1 step_simps)
  have sum1: "sum_list (prime_count st1) = sum_list (prime_count st) + 1"
    using k Cons.prems(2) by (simp add: st1 step_simps sum_list_bump)
  have cnt1: "counter st1 = counter st + 1"
    by (simp add: st1 step_simps)
  show ?case
    using Cons.IH [OF pos1 len1 rest] sum1 cnt1 by simp
qed

lemma unat_bump:
  fixes x :: "32 word"
  assumes "unat x + 1 < 2 ^ 32"
  shows "unat (x + 1) = unat x + 1" and "x \<le> x + 1"
proof -
  show u: "unat (x + 1) = unat x + 1"
    using assms unat_add_lem [of x 1] by simp
  show "x \<le> x + 1"
    by (simp add: word_le_nat_alt u)
qed

lemma sum_unat_bump:
  fixes xs :: "32 word list"
  assumes "k < length xs" and "sum_list (map unat xs) + 1 < 2 ^ 32"
  shows "sum_list (map unat (xs[k := xs ! k + 1])) = sum_list (map unat xs) + 1"
    and "xs ! k \<le> xs ! k + 1"
proof -
  have "unat (xs ! k) \<in> set (map unat xs)"
    using assms(1) by (metis length_map nth_map nth_mem)
  then have "unat (xs ! k) \<le> sum_list (map unat xs)"
    by (rule member_le_sum_list) simp
  then have small: "unat (xs ! k) + 1 < 2 ^ 32"
    using assms(2) by simp
  show "xs ! k \<le> xs ! k + 1"
    using small by (rule unat_bump(2))
  have "map unat (xs[k := xs ! k + 1]) = (map unat xs)[k := unat (xs ! k) + 1]"
    by (simp add: map_update unat_bump(1) [OF small])
  then show "sum_list (map unat (xs[k := xs ! k + 1])) = sum_list (map unat xs) + 1"
    using assms(1) \<open>unat (xs ! k) \<le> sum_list (map unat xs)\<close>
    by (simp add: sum_list_update)
qed

lemma run_lines_sum_unat:
  assumes "0 < bound st" and "length (prime_count st) = 20"
    and "run_lines st ls = (st', None)"
    and "sum_list (map unat (prime_count st)) + length ls < 2 ^ 32"
  shows "sum_list (map unat (prime_count st')) = sum_list (map unat (prime_count st)) + length ls"
  using assms
proof (induction ls arbitrary: st)
  case Nil
  then show ?case by simp
next
  case (Cons l ls)
  obtain st1 where step: "process_line st l = Inr st1"
    using Cons.prems(3) by (cases "process_line st l") simp_all
  have rest: "run_lines st1 ls = (st', None)"
    using Cons.prems(3) step by simp
  obtain n where st1: "st1 = counted (length (line_tokens l)) (scaled n st)"
      and k: "length (line_tokens l) < 20"
    using process_line_Inr [OF Cons.prems(1) step] by blast
  have pos1: "0 < bound st1"
    using process_line_bound_pos [OF Cons.prems(1) step] .
  have len1: "length (prime_count st1) = 20"
    using Cons.prems(2) by (simp add: st1 step_simps)
  have room: "sum_list (map unat (prime_count st)) + 1 < 2 ^ 32"
    using Cons.prems(4) by simp
  have sum1: "sum_list (map unat (prime_count st1)) = sum_list (map unat (prime_count st)) + 1"
    using k Cons.prems(2) room by (simp add: st1 step_simps sum_unat_bump(1))
  have "sum_list (map unat (prime_count st1)) + length ls < 2 ^ 32"
    using Cons.prems(4) sum1 by simp
  from Cons.IH [OF pos1 len1 rest this] sum1 show ?case by simp
qed

lemma upt_0_20: "[0..<20] = [0..<4] @ [4..<16] @ [16..<20::nat]"
  by (simp add: upt_rec)

lemma sum_list_buckets:
  fixes f :: "32 word \<Rightarrow> 'b::comm_monoid_add"
  assumes "length pc = 20"
  shows "sum_list (map f pc)
         = sum_list (map f (print_row pc))
           + sum_list (map (\<lambda>j. f (pc ! j)) ([0..<4] @ [16..<20]))"
proof -
  have "map f pc = map (\<lambda>j. f (pc ! j)) [0..<length pc]"
    by (simp add: map_nth flip: map_map [unfolded comp_def])
  then have "map f pc = map (\<lambda>j. f (pc ! j)) ([0..<4] @ [4..<16] @ [16..<20])"
    using assms upt_0_20 by simp
  then have "sum_list (map f pc) = sum_list (map (\<lambda>j. f (pc ! j)) ([0..<4] @ [4..<16] @ [16..<20]))"
    by simp
  also have "\<dots> = sum_list (map f (map (\<lambda>j. pc ! j) [4..<16]))
           + sum_list (map (\<lambda>j. f (pc ! j)) ([0..<4] @ [16..<20]))"
    by (simp only: map_append sum_list_append map_map comp_def ac_simps)
  finally show ?thesis by (simp only: print_row_eq)
qed


lemma counter_lines_None:
  assumes "counter_lines ls = (st, None)"
  obtains st0 where "run_lines init_state ls = (st0, None)" and "st = final_row st0"
  using assms by (auto simp: counter_lines_def split: prod.splits option.splits)

lemma ex_parse_short: "parse_line ''6 2 3'' = Inr [6, 2, 3]"
  by (simp add: parse_simps)

lemma ex_run_short:
  "counter_lines [''6 2 3'']
     = (\<lparr> bound = 1000, counter = 1, i = 2,
           prime_count = [0, 0, 0, 1, 0, 0, 0, 0, 0, 0, 0, 0, 0, 0, 0, 0, 0, 0, 0, 0],
           cout = [[0, 0, 0, 0, 0, 0, 0, 0, 0, 0, 0, 0]] \<rparr>, None)"
  by (simp add: counter_lines_def step_eval ex_parse_short init_state_def final_row_def
      eval_nat_numeral)

section \<open>Order of the rows\<close>

lemma row_le_refl: "row_le r r"
  by (simp add: row_le_def list_all2_refl)

lemma row_le_trans: "row_le a b \<Longrightarrow> row_le b c \<Longrightarrow> row_le a c"
  unfolding row_le_def by (rule list_all2_trans [of "(\<le>)" "(\<le>)" "(\<le>)"]) auto

lemma length_print_row: "length (print_row pc) = 12"
  by (simp add: print_row_def)

lemma sorted_wrt_replicate: "sorted_wrt row_le (replicate n r)"
  by (induction n) (simp_all add: row_le_refl)

lemma rows_inv_scaled:
  assumes "rows_inv st"
  shows "rows_inv (scaled n st)"
  using assms
  by (auto simp: rows_inv_def step_simps sorted_wrt_append sorted_wrt_replicate row_le_refl)

lemma print_row_bump:
  assumes "length pc = 20" and "k < 20" and "pc ! k \<le> pc ! k + 1"
  shows "row_le (print_row pc) (print_row (pc[k := pc ! k + 1]))"
proof -
  have "\<And>j. j < 20 \<Longrightarrow> pc ! j \<le> pc[k := pc ! k + 1] ! j"
    using assms by (auto simp: nth_list_update)
  then show ?thesis
    unfolding row_le_def print_row_eq
    by (simp add: list_all2_map1 list_all2_map2 list_all2_same)
qed

lemma rows_inv_counted:
  assumes "rows_inv st" and "length (prime_count st) = 20" and "k < 20"
    and "prime_count st ! k \<le> prime_count st ! k + 1"
  shows "rows_inv (counted k st)"
proof -
  have up: "row_le (print_row (prime_count st)) (print_row (prime_count (counted k st)))"
    using print_row_bump [OF assms(2,3,4)] by (simp add: step_simps)
  show ?thesis
    using assms(1) row_le_trans [OF _ up] by (auto simp: rows_inv_def step_simps)
qed

lemma run_lines_rows_inv:
  assumes "0 < bound st" and "length (prime_count st) = 20"
    and "sum_list (map unat (prime_count st)) + length ls < 2 ^ 32"
    and "rows_inv st"
  shows "rows_inv (fst (run_lines st ls))"
  using assms
proof (induction ls arbitrary: st)
  case Nil
  then show ?case by simp
next
  case (Cons l ls)
  show ?case
  proof (cases "process_line st l")
    case (Inl e)
    then show ?thesis using Cons.prems(4) by simp
  next
    case (Inr st1)
    obtain n where st1: "st1 = counted (length (line_tokens l)) (scaled n st)"
        and k: "length (line_tokens l) < 20"
      using process_line_Inr [OF Cons.prems(1) Inr] by blast
    have pos1: "0 < bound st1"
      using process_line_bound_pos [OF Cons.prems(1) Inr] .
    have len1: "length (prime_count st1) = 20"
      using Cons.prems(2) by (simp add: st1 step_simps)
    have room: "sum_list (map unat (prime_count st)) + 1 < 2 ^ 32"
      using Cons.prems(3) by simp
    have k': "length (line_tokens l) < length (prime_count st)"
      using k Cons.prems(2) by simp
    have sum1: "sum_list (map unat (prime_count st1)) = sum_list (map unat (prime_count st)) + 1"
      using sum_unat_bump(1) [OF k' room] by (simp add: st1 step_simps)
    have room1: "sum_list (map unat (prime_count st1)) + length ls < 2 ^ 32"
      using Cons.prems(3) sum1 by simp
    have "rows_inv (scaled n st)"
      using Cons.prems(4) by (rule rows_inv_scaled)
    then have "rows_inv st1"
      unfolding st1
      using Cons.prems(2) k sum_unat_bump(2) [OF k' room]
      by (intro rows_inv_counted) (simp_all add: step_simps)
    from Cons.IH [OF pos1 len1 room1 this] show ?thesis
      using Inr by simp
  qed
qed

lemma counter_lines_rows:
  assumes "length ls < 2 ^ 32"
  shows "sorted_wrt row_le (cout (fst (counter_lines ls)))
         \<and> (\<forall>r \<in> set (cout (fst (counter_lines ls))). length r = 12)"
proof -
  obtain st0 r where run: "run_lines init_state ls = (st0, r)"
    by (cases "run_lines init_state ls")
  have "rows_inv init_state"
    by (simp add: rows_inv_def init_state_def)
  moreover have "sum_list (map unat (prime_count init_state)) + length ls < 2 ^ 32"
    using assms by (simp add: init_state_def sum_list_replicate)
  ultimately have "rows_inv (fst (run_lines init_state ls))"
    by (intro run_lines_rows_inv) (simp_all add: init_state_def)
  then have inv: "sorted_wrt row_le (cout st0)"
      "\<forall>r \<in> set (cout st0). row_le r (print_row (prime_count st0))"
    using run by (simp_all add: rows_inv_def)
  have len: "\<forall>r \<in> set (cout st0). length r = 12"
  proof
    fix r assume "r \<in> set (cout st0)"
    then have "list_all2 (\<le>) r (print_row (prime_count st0))"
      using inv(2) by (simp add: row_le_def)
    then have "length r = length (print_row (prime_count st0))"
      by (rule list_all2_lengthD)
    then show "length r = 12" by (simp add: length_print_row)
  qed
  show ?thesis
  proof (cases r)
    case None
    then have "cout (fst (counter_lines ls)) = cout st0 @ [print_row (prime_count st0)]"
      using run by (simp add: counter_lines_def final_row_def)
    then show ?thesis
      using inv len by (simp add: sorted_wrt_append length_print_row)
  next
    case (Some e)
    then have "cout (fst (counter_lines ls)) = cout st0"
      using run by (simp add: counter_lines_def)
    then show ?thesis using inv len by simp
  qed
qed

lemma ex_parse_ones: "parse_line ''1 1 1 1'' = Inr [1, 1, 1, 1]"
  and ex_parse_above: "parse_line ''5000 1 1 1'' = Inr [5000, 1, 1, 1]"
  by (simp_all add: parse_simps)

lemma process_line_ones:
  assumes "1 \<le> bound st"
  shows "process_line st ''1 1 1 1'' = Inr (counted 4 st)"
proof -
  have "threshold_loop 1 st = Some st"
    using assms by (intro threshold_loop_stop) simp
  then show ?thesis
    by (simp add: process_line_def ex_parse_ones count_record_def counted_def eval_nat_numeral)
qed

lemma run_lines_ones:
  assumes "1 \<le> bound st" and "length (prime_count st) = 20"
  shows "run_lines st (replicate n ''1 1 1 1'')
         = (st\<lparr> counter := counter st + of_nat n,
                 prime_count := (prime_count st)[4 := prime_count st ! 4 + of_nat n] \<rparr>, None)"
  using assms
proof (induction n arbitrary: st)
  case 0
  then show ?case by simp
next
  case (Suc n)
  have b: "1 \<le> bound (counted 4 st)" and len: "length (prime_count (counted 4 st)) = 20"
    using Suc.prems by (simp_all add: step_simps)
  have "run_lines st (replicate (Suc n) ''1 1 1 1'')
      = run_lines (counted 4 st) (replicate n ''1 1 1 1'')"
    by (simp add: process_line_ones [OF Suc.prems(1)])
  also have "\<dots> = ((counted 4 st)\<lparr> counter := counter (counted 4 st) + of_nat n,
        prime_count := (prime_count (counted 4 st))
                         [4 := prime_count (counted 4 st) ! 4 + of_nat n] \<rparr>, None)"
    by (rule Suc.IH [OF b len])
  also have "(counted 4 st)\<lparr> counter := counter (counted 4 st) + of_nat n,
        prime_count := (prime_count (counted 4 st))
                         [4 := prime_count (counted 4 st) ! 4 + of_nat n] \<rparr>
      = st\<lparr> counter := counter st + of_nat (Suc n),
             prime_count := (prime_count st)[4 := prime_count st ! 4 + of_nat (Suc n)] \<rparr>"
    using Suc.prems(2) by (simp add: counted_def ac_simps)
  finally show ?case .
qed

lemma ex_run_two:
  "run_lines init_state [''1 1 1 1'', ''5000 1 1 1'']
     = (\<lparr> bound = 10000, counter = 2, i = 3,
           prime_count = [0, 0, 0, 0, 2, 0, 0, 0, 0, 0, 0, 0, 0, 0, 0, 0, 0, 0, 0, 0],
           cout = [[1, 0, 0, 0, 0, 0, 0, 0, 0, 0, 0, 0]] \<rparr>, None)"
  by (simp add: step_eval ex_parse_ones ex_parse_above init_state_def eval_nat_numeral)

lemma bucket_wraps:
  assumes "(2 + of_nat n :: 32 word) = 0"
  shows "cout (fst (counter_lines ([''1 1 1 1'', ''5000 1 1 1''] @ replicate n ''1 1 1 1'')))
           = [[1, 0, 0, 0, 0, 0, 0, 0, 0, 0, 0, 0], [0, 0, 0, 0, 0, 0, 0, 0, 0, 0, 0, 0]]
         \<and> snd (counter_lines ([''1 1 1 1'', ''5000 1 1 1''] @ replicate n ''1 1 1 1'')) = None"
proof -
  let ?s2 = "\<lparr> bound = 10000, counter = 2, i = 3,
           prime_count = [0, 0, 0, 0, 2, 0, 0, 0, 0, 0, 0, 0, 0, 0, 0, 0, 0, 0, 0, 0 :: 32 word],
           cout = [[1, 0, 0, 0, 0, 0, 0, 0, 0, 0, 0, 0 :: 32 word]] \<rparr>"
  have "run_lines ?s2 (replicate n ''1 1 1 1'')
      = (?s2\<lparr> counter := counter ?s2 + of_nat n,
               prime_count := (prime_count ?s2)[4 := prime_count ?s2 ! 4 + of_nat n] \<rparr>, None)"
    by (rule run_lines_ones) simp_all
  moreover have "run_lines init_state ([''1 1 1 1'', ''5000 1 1 1''] @ replicate n ''1 1 1 1'')
      = run_lines ?s2 (replicate n ''1 1 1 1'')"
    by (simp only: run_lines_append ex_run_two prod.case option.case)
  ultimately have "run_lines init_state ([''1 1 1 1'', ''5000 1 1 1''] @ replicate n ''1 1 1 1'')
      = (?s2\<lparr> counter := 2 + of_nat n, prime_count := replicate 20 0 \<rparr>, None)"
    using assms by (simp add: eval_nat_numeral)
  then show ?thesis
    by (simp add: counter_lines_def final_row_def print_row_def)
qed

section \<open>Claims\<close>

text \<open>
  C1 (as the code has it). A line that converts to \<open>k\<close> tokens, the principal included,
  with \<open>1 \<le> k < 20\<close>, increments \<^verbatim>\<open>counter\<close> and exactly the bucket with index \<open>k\<close>,
  one more than the number of divisors; the other buckets keep their values. Nothing is
  clamped: with no token or with 20 tokens or more the access is out of range.
\<close>

theorem c1_bucket_is_token_count:
  assumes "0 < bound st" and "parse_line line = Inr v_nums"
  shows "length v_nums = length (line_tokens line)
         \<and> (v_nums \<noteq> [] \<and> length v_nums < 20 \<longrightarrow>
              (\<exists>st'. process_line st line = Inr st'
                 \<and> prime_count st' =
                     (prime_count st)[length v_nums := prime_count st ! length v_nums + 1]
                 \<and> counter st' = counter st + 1))
         \<and> (v_nums = [] \<or> 20 \<le> length v_nums \<longrightarrow> process_line st line = Inl OutOfBounds)"
proof (cases v_nums)
  case Nil
  then show ?thesis
    using assms(2) parse_line_length [OF assms(2)] by (simp add: process_line_def)
next
  case (Cons p ds)
  obtain n where n: "process_line st line = count_record (Suc (length ds)) (scaled n st)"
    using process_line_closed [OF assms(1)] assms(2) Cons by blast
  show ?thesis
    using assms(2) Cons n parse_line_length [OF assms(2)]
    by (simp add: count_record_def prime_count_scaled counter_scaled)
qed

theorem c1_bucket_is_token_count_witness:
  "0 < bound init_state
   \<and> parse_line ''561 3 11 17'' = Inr [561, 3, 11, 17]
   \<and> (\<exists>st'. process_line init_state ''561 3 11 17'' = Inr st'
         \<and> prime_count st' =
             (prime_count init_state)
               [length [561, 3, 11, 17::int] :=
                  prime_count init_state ! length [561, 3, 11, 17::int] + 1])
   \<and> parse_line ''9 1 1 1 1 1 1 1 1 1 1 1 1 1 1 1 1 1 1 1''
       = Inr [9, 1, 1, 1, 1, 1, 1, 1, 1, 1, 1, 1, 1, 1, 1, 1, 1, 1, 1, 1]
   \<and> process_line init_state ''9 1 1 1 1 1 1 1 1 1 1 1 1 1 1 1 1 1 1 1'' = Inl OutOfBounds"
proof -
  have h1: "0 < bound init_state"
    by (simp add: init_state_def)
  have h2: "parse_line ''561 3 11 17'' = Inr [561, 3, 11, 17]"
    by (simp add: parse_simps)
  have h3: "parse_line ''9 1 1 1 1 1 1 1 1 1 1 1 1 1 1 1 1 1 1 1''
       = Inr [9, 1, 1, 1, 1, 1, 1, 1, 1, 1, 1, 1, 1, 1, 1, 1, 1, 1, 1, 1]"
    by (simp add: parse_simps)
  have short: "[561, 3, 11, 17::int] \<noteq> [] \<and> length [561, 3, 11, 17::int] < 20"
    by simp
  have long: "20 \<le> length [9, 1, 1, 1, 1, 1, 1, 1, 1, 1, 1, 1, 1, 1, 1, 1, 1, 1, 1, 1::int]"
    by simp
  show ?thesis
    using c1_bucket_is_token_count [OF h1 h2] c1_bucket_is_token_count [OF h1 h3]
      h1 h2 h3 short long
    by blast
qed

text \<open>
  C1 (as stated) fails: a principal with three divisors is counted in bucket 4, not in
  bucket 3, and a principal with 19 divisors is not counted in bucket 19 but indexes the
  array out of range.
\<close>

theorem c1_spec_bucket_counterexample:
  "spec_bucket ''561 3 11 17'' = 3
   \<and> (case process_line init_state ''561 3 11 17'' of
        Inr st' \<Rightarrow> prime_count st' ! 3 = 0 \<and> prime_count st' ! 4 = 1
      | Inl e \<Rightarrow> False)
   \<and> spec_bucket ''9 1 1 1 1 1 1 1 1 1 1 1 1 1 1 1 1 1 1 1'' = 19
   \<and> process_line init_state ''9 1 1 1 1 1 1 1 1 1 1 1 1 1 1 1 1 1 1 1'' = Inl OutOfBounds"
  by (simp add: spec_bucket_def parse_simps counter_simps eval_nat_numeral)

text \<open>
  C2 (as the code has it). The threshold loop runs while \<open>bound < principal\<close>, strictly:
  from a state with a positive bound it makes exactly \<open>n\<close> passes, where \<open>n\<close> is the least
  number with \<open>principal \<le> bound * 10 ^ n\<close>; each pass adds one to \<open>i\<close>, multiplies
  \<open>bound\<close> by ten and prints one row of the counts held before the record is counted, and
  only then is the record counted. A principal equal to the bound, or below it, gives no
  pass; a principal above ten times the bound gives at least two.
\<close>

theorem c2_threshold_loop_strict:
  assumes "0 < bound st" and "parse_line line = Inr (p # ds)"
  shows "\<exists>n. threshold_loop p st = Some (scaled n st)
             \<and> process_line st line = count_record (Suc (length ds)) (scaled n st)
             \<and> (\<forall>k<n. bound st * 10 ^ k < p) \<and> \<not> bound st * 10 ^ n < p
             \<and> (p \<le> bound st \<longrightarrow> n = 0) \<and> (bound st * 10 < p \<longrightarrow> 2 \<le> n)"
proof -
  obtain n where n: "threshold_loop p st = Some (scaled n st)"
      "\<forall>k<n. bound st * 10 ^ k < p" "\<not> bound st * 10 ^ n < p"
    using threshold_loop_closed [OF assms(1)] by blast
  have "process_line st line = count_record (Suc (length ds)) (scaled n st)"
    by (simp add: process_line_def assms(2) n(1))
  moreover have "p \<le> bound st \<longrightarrow> n = 0"
  proof
    assume le: "p \<le> bound st"
    show "n = 0"
    proof (rule ccontr)
      assume "n \<noteq> 0"
      then have "bound st * 10 ^ 0 < p" using n(2) by blast
      with le show False by simp
    qed
  qed
  moreover have "bound st * 10 < p \<longrightarrow> 2 \<le> n"
  proof
    assume gt: "bound st * 10 < p"
    have "n \<noteq> 0" using n(3) gt assms(1) by (auto intro: ccontr)
    moreover have "n \<noteq> 1" using n(3) gt by auto
    ultimately show "2 \<le> n" by simp
  qed
  ultimately show ?thesis using n by blast
qed

theorem c2_threshold_loop_strict_witness:
  "0 < bound init_state \<and> parse_line ''50000 7 11 13'' = Inr (50000 # [7, 11, 13])
   \<and> (\<exists>n. threshold_loop 50000 init_state = Some (scaled n init_state)
          \<and> process_line init_state ''50000 7 11 13''
              = count_record (Suc (length [7, 11, 13::int])) (scaled n init_state)
          \<and> 2 \<le> n)"
proof -
  have h1: "0 < bound init_state"
    by (simp add: init_state_def)
  have h2: "parse_line ''50000 7 11 13'' = Inr (50000 # [7, 11, 13])"
    by (simp add: parse_simps)
  have h3: "bound init_state * 10 < 50000"
    by (simp add: init_state_def)
  show ?thesis
    using c2_threshold_loop_strict [OF h1 h2] h1 h2 h3 by blast
qed

text \<open>
  C2 (as stated) fails: the line below has the principal 1000, equal to the initial bound.
  Processing it prints no row and leaves \<open>bound\<close> and \<open>i\<close> as they were.
\<close>

theorem c2_equal_bound_counterexample:
  "parse_line ''1000 7 11 13'' = Inr [1000, 7, 11, 13]
   \<and> bound init_state = 1000
   \<and> (case process_line init_state ''1000 7 11 13'' of
        Inr st' \<Rightarrow> cout st' = [] \<and> bound st' = 1000 \<and> i st' = 2
      | Inl e \<Rightarrow> False)"
  by (simp add: parse_simps counter_simps)

text \<open>
  C3. Whenever the filter reaches the end of its input, which it does exactly on the
  inputs whose lines are all record lines, what it has written is the list of the input
  lines whose principal is divisible by 5717264681, each as it was read, in the order of
  the input. (In general it has written those among the lines before the first line that
  is no record line.) In particular, of three record lines with the principals
  5717264681, 5717264682 and 11434529362 it writes the first and the third.
\<close>

theorem c3_filter_subsequence:
  "fst (filter_lines [] ls) = filter divisible_line (takeWhile record_line ls)
   \<and> (snd (filter_lines [] ls) = None \<longleftrightarrow> (\<forall>l \<in> set ls. record_line l))
   \<and> (snd (filter_lines [] ls) = None \<longrightarrow>
        filter_lines [] ls = (filter divisible_line ls, None))
   \<and> (parse_line l1 = Inr (5717264681 # d1) \<and> parse_line l2 = Inr (5717264682 # d2)
        \<and> parse_line l3 = Inr (11434529362 # d3) \<longrightarrow>
      filter_lines [] [l1, l2, l3] = ([l1, l3], None))"
proof (intro conjI impI)
  show "fst (filter_lines [] ls) = filter divisible_line (takeWhile record_line ls)"
    using filter_lines_general [of "[]" ls] by simp
  show "snd (filter_lines [] ls) = None \<longleftrightarrow> (\<forall>l \<in> set ls. record_line l)"
    using filter_lines_general [of "[]" ls] by simp
next
  assume "snd (filter_lines [] ls) = None"
  then have "\<forall>l \<in> set ls. record_line l"
    using filter_lines_general [of "[]" ls] by simp
  then show "filter_lines [] ls = (filter divisible_line ls, None)"
    using filter_lines_records [of ls "[]"] by simp
next
  assume "parse_line l1 = Inr (5717264681 # d1) \<and> parse_line l2 = Inr (5717264682 # d2)
        \<and> parse_line l3 = Inr (11434529362 # d3)"
  then show "filter_lines [] [l1, l2, l3] = ([l1, l3], None)"
    by (simp add: filter_line_record divisor_def)
qed

theorem c3_filter_subsequence_witness:
  "record_line ''5717264681 7 11'' \<and> record_line ''5717264682 2 3''
   \<and> record_line ''11434529362 2 13''
   \<and> snd (filter_lines [] [''5717264681 7 11'', ''5717264682 2 3'', ''11434529362 2 13''])
       = None
   \<and> filter_lines [] [''5717264681 7 11'', ''5717264682 2 3'', ''11434529362 2 13'']
       = (filter divisible_line
            [''5717264681 7 11'', ''5717264682 2 3'', ''11434529362 2 13''], None)
   \<and> filter_lines [] [''5717264681 7 11'', ''5717264682 2 3'', ''11434529362 2 13'']
       = ([''5717264681 7 11'', ''11434529362 2 13''], None)"
proof -
  have p1: "parse_line ''5717264681 7 11'' = Inr (5717264681 # [7, 11])"
    by (simp add: parse_simps)
  have p2: "parse_line ''5717264682 2 3'' = Inr (5717264682 # [2, 3])"
    by (simp add: parse_simps)
  have p3: "parse_line ''11434529362 2 13'' = Inr (11434529362 # [2, 13])"
    by (simp add: parse_simps)
  have rec: "\<forall>l \<in> set [''5717264681 7 11'', ''5717264682 2 3'', ''11434529362 2 13''].
      record_line l"
    by (simp add: record_line_def p1 p2 p3)
  have each: "record_line ''5717264681 7 11'' \<and> record_line ''5717264682 2 3''
      \<and> record_line ''11434529362 2 13''"
    using rec by simp
  note c3 = c3_filter_subsequence
      [of "[''5717264681 7 11'', ''5717264682 2 3'', ''11434529362 2 13'']"
          "''5717264681 7 11''" "[7, 11]" "''5717264682 2 3''" "[2, 3]"
          "''11434529362 2 13''" "[2, 13]"]
  have fin: "snd (filter_lines []
      [''5717264681 7 11'', ''5717264682 2 3'', ''11434529362 2 13'']) = None"
    using c3 rec by blast
  show ?thesis
    using c3 p1 p2 p3 each fin by blast
qed

text \<open>
  C4. Whenever the loop over the lines has reached the end of the input, which it does
  on every input of counter records, exactly one more row is printed after the rows of
  the threshold loop (whose number is the number of times the bound was scaled): the
  twelve counts, for 4 to 15 tokens, of all the lines of the input, whatever the
  threshold loop did. On the empty input this is the only row, twelve zeros.
\<close>

theorem c4_final_row:
  "(snd (run_lines init_state ls) = None \<longrightarrow>
      (\<exists>st. counter_lines ls = (st, None)
         \<and> cout st = cout (fst (run_lines init_state ls)) @ [tally_row ls]
         \<and> bound st = 1000 * 10 ^ length (cout (fst (run_lines init_state ls)))))
   \<and> ((\<forall>l \<in> set ls. counter_record l) \<longrightarrow> snd (run_lines init_state ls) = None)
   \<and> length (tally_row ls) = 12
   \<and> counter_main (Some []) = ([replicate 12 0], None)"
proof (intro conjI impI)
  assume "snd (run_lines init_state ls) = None"
  then obtain st0 where run: "run_lines init_state ls = (st0, None)"
    by (cases "run_lines init_state ls") simp
  have row: "print_row (prime_count st0) = tally_row ls"
    using run by (rule run_lines_init_tally)
  have "threshold_inv st0"
    using run_lines_threshold_inv [OF threshold_inv_init, of ls] run by simp
  then have b: "bound st0 = 1000 * 10 ^ length (cout st0)"
    by (simp add: threshold_inv_def)
  have "counter_lines ls = (final_row st0, None)"
    using run by (simp add: counter_lines_def)
  moreover have "cout (final_row st0) = cout st0 @ [tally_row ls]"
    by (simp add: final_row_def row)
  moreover have "bound (final_row st0) = 1000 * 10 ^ length (cout st0)"
    by (simp add: final_row_def b)
  ultimately show "\<exists>st. counter_lines ls = (st, None)
         \<and> cout st = cout (fst (run_lines init_state ls)) @ [tally_row ls]
         \<and> bound st = 1000 * 10 ^ length (cout (fst (run_lines init_state ls)))"
    using run by simp
next
  assume records: "\<forall>l \<in> set ls. counter_record l"
  have "0 < bound init_state" by (simp add: init_state_def)
  then show "snd (run_lines init_state ls) = None"
    using records by (rule run_lines_total)
next
  show "length (tally_row ls) = 12"
    by (rule length_tally_row)
  show "counter_main (Some []) = ([replicate 12 0], None)"
    by (simp add: counter_main_def file_lines_def counter_simps eval_nat_numeral)
qed

theorem c4_final_row_witness:
  "counter_record ''561 3 11 17'' \<and> counter_record ''41041 7 11 13 41''
   \<and> snd (run_lines init_state [''561 3 11 17'', ''41041 7 11 13 41'']) = None
   \<and> (\<exists>st. counter_lines [''561 3 11 17'', ''41041 7 11 13 41''] = (st, None)
         \<and> cout st = cout (fst (run_lines init_state [''561 3 11 17'', ''41041 7 11 13 41'']))
                        @ [tally_row [''561 3 11 17'', ''41041 7 11 13 41'']])
   \<and> tally_row [''561 3 11 17'', ''41041 7 11 13 41''] = [1, 1, 0, 0, 0, 0, 0, 0, 0, 0, 0, 0]"
proof -
  have r1: "counter_record ''561 3 11 17''"
    by (simp add: counter_record_def parse_simps)
  have r2: "counter_record ''41041 7 11 13 41''"
    by (simp add: counter_record_def parse_simps)
  have all: "\<forall>l \<in> set [''561 3 11 17'', ''41041 7 11 13 41'']. counter_record l"
    using r1 r2 by simp
  have row: "tally_row [''561 3 11 17'', ''41041 7 11 13 41''] = [1, 1, 0, 0, 0, 0, 0, 0, 0, 0, 0, 0]"
    by (simp add: tally_row_def tally_def line_tokens_def upt_rec)
  note c4 = c4_final_row [of "[''561 3 11 17'', ''41041 7 11 13 41'']"]
  have fin: "snd (run_lines init_state [''561 3 11 17'', ''41041 7 11 13 41'']) = None"
    using c4 all by blast
  show ?thesis
    using c4 r1 r2 fin row by blast
qed

text \<open>
  C5. The rows printed while a line is processed all show the counts of the lines before
  it; the line itself is counted only afterwards. On the four records with the
  principals 500, 5000, 50000 and 500000 and 3, 4, 5 and 6 divisors the output is three
  such rows, each without the record that caused it, and the final row.
\<close>

theorem c5_rows_are_snapshots:
  "(run_lines init_state pre = (st, None) \<and> process_line st l = Inr st' \<longrightarrow>
      (\<exists>n. cout st' = cout st @ replicate n (tally_row pre))
      \<and> print_row (prime_count st') = tally_row (pre @ [l]))
   \<and> counter_lines
        [''500 2 5 10'', ''5000 2 4 5 10'', ''50000 2 4 5 8 10'', ''500000 2 4 5 8 10 16'']
      = (\<lparr> bound = 1000000, counter = 4, i = 5,
            prime_count = [0, 0, 0, 0, 1, 1, 1, 1, 0, 0, 0, 0, 0, 0, 0, 0, 0, 0, 0, 0],
            cout = [[1, 0, 0, 0, 0, 0, 0, 0, 0, 0, 0, 0],
                    [1, 1, 0, 0, 0, 0, 0, 0, 0, 0, 0, 0],
                    [1, 1, 1, 0, 0, 0, 0, 0, 0, 0, 0, 0],
                    [1, 1, 1, 1, 0, 0, 0, 0, 0, 0, 0, 0]] \<rparr>, None)"
proof (intro conjI impI)
  assume a: "run_lines init_state pre = (st, None) \<and> process_line st l = Inr st'"
  have "threshold_inv st"
    using run_lines_threshold_inv [OF threshold_inv_init, of pre] a by simp
  then have pos: "0 < bound st"
    by (simp add: threshold_inv_def)
  obtain n where st': "st' = counted (length (line_tokens l)) (scaled n st)"
    using process_line_Inr [OF pos] a by blast
  have before: "print_row (prime_count st) = tally_row pre"
    using a by (intro run_lines_init_tally) simp
  have "cout st' = cout st @ replicate n (tally_row pre)"
    by (simp add: st' step_simps before)
  then show "\<exists>n. cout st' = cout st @ replicate n (tally_row pre)" ..
  have "run_lines init_state (pre @ [l]) = (st', None)"
    using a by (simp add: run_lines_append)
  then show "print_row (prime_count st') = tally_row (pre @ [l])"
    by (rule run_lines_init_tally)
next
  show "counter_lines
        [''500 2 5 10'', ''5000 2 4 5 10'', ''50000 2 4 5 8 10'', ''500000 2 4 5 8 10 16'']
      = (\<lparr> bound = 1000000, counter = 4, i = 5,
            prime_count = [0, 0, 0, 0, 1, 1, 1, 1, 0, 0, 0, 0, 0, 0, 0, 0, 0, 0, 0, 0],
            cout = [[1, 0, 0, 0, 0, 0, 0, 0, 0, 0, 0, 0],
                    [1, 1, 0, 0, 0, 0, 0, 0, 0, 0, 0, 0],
                    [1, 1, 1, 0, 0, 0, 0, 0, 0, 0, 0, 0],
                    [1, 1, 1, 1, 0, 0, 0, 0, 0, 0, 0, 0]] \<rparr>, None)"
    by (rule four_records_run)
qed

theorem c5_rows_are_snapshots_witness:
  "(\<exists>st st'. run_lines init_state [''500 2 5 10''] = (st, None)
       \<and> process_line st ''5000 2 4 5 10'' = Inr st'
       \<and> cout st = [] \<and> cout st' = [[1, 0, 0, 0, 0, 0, 0, 0, 0, 0, 0, 0]]
       \<and> (\<exists>n. cout st' = cout st @ replicate n (tally_row [''500 2 5 10'']))
       \<and> print_row (prime_count st') = tally_row ([''500 2 5 10''] @ [''5000 2 4 5 10'']))"
proof -
  let ?st = "\<lparr> bound = 1000, counter = 1, i = 2,
            prime_count = [0, 0, 0, 0, 1, 0, 0, 0, 0, 0, 0, 0, 0, 0, 0, 0, 0, 0, 0, 0],
            cout = [] \<rparr>"
  let ?st' = "\<lparr> bound = 10000, counter = 2, i = 3,
            prime_count = [0, 0, 0, 0, 1, 1, 0, 0, 0, 0, 0, 0, 0, 0, 0, 0, 0, 0, 0, 0],
            cout = [[1, 0, 0, 0, 0, 0, 0, 0, 0, 0, 0, 0]] \<rparr>"
  have run: "run_lines init_state [''500 2 5 10''] = (?st, None)"
    by (simp add: ex_step_1)
  have step: "process_line ?st ''5000 2 4 5 10'' = Inr ?st'"
    by (rule ex_step_2)
  have c0: "cout ?st = []" and c1: "cout ?st' = [[1, 0, 0, 0, 0, 0, 0, 0, 0, 0, 0, 0]]"
    by simp_all
  show ?thesis
    using c5_rows_are_snapshots [of "[''500 2 5 10'']" ?st "''5000 2 4 5 10''" ?st']
      run step c0 c1
    by blast
qed

text \<open>
  C6 (as the code has it). Between the lines and between the passes of the threshold
  loop, \<open>bound = 1000 * 10 ^ k\<close> and \<open>i = 2 + k\<close> in 32-bit arithmetic, where \<open>k\<close> is the
  number of passes made so far (the number of rows printed). This holds initially, is
  kept by every pass, which strictly increases the bound, and by every line, hence
  throughout every run. As long as fewer than \<open>2 ^ 32 - 2\<close> passes were made, it is the
  equation \<open>bound = 1000 * 10 ^ (i - 2)\<close>.
\<close>

theorem c6_threshold_invariant:
  "threshold_inv init_state
   \<and> (threshold_inv st \<longrightarrow> threshold_inv (scale_emit st) \<and> bound st < bound (scale_emit st))
   \<and> (threshold_inv st \<and> process_line st l = Inr st' \<longrightarrow>
        threshold_inv st' \<and> bound st \<le> bound st')
   \<and> threshold_inv (fst (run_lines init_state ls))
   \<and> (threshold_inv st \<and> length (cout st) < 2 ^ 32 - 2 \<longrightarrow>
        bound st = 1000 * 10 ^ (unat (i st) - 2))"
proof (intro conjI impI)
  show "threshold_inv init_state"
    by (rule threshold_inv_init)
  show "threshold_inv (fst (run_lines init_state ls))"
    by (rule run_lines_threshold_inv [OF threshold_inv_init])
next
  assume "threshold_inv st"
  then show "threshold_inv (scale_emit st)" and "bound st < bound (scale_emit st)"
    using scale_emit_threshold_inv by blast+
next
  assume a: "threshold_inv st \<and> process_line st l = Inr st'"
  then have pos: "0 < bound st" by (simp add: threshold_inv_def)
  show "threshold_inv st'"
    using a process_line_threshold_inv by blast
  show "bound st \<le> bound st'"
    using a process_line_bound_mono [OF pos] by blast
next
  assume a: "threshold_inv st \<and> length (cout st) < 2 ^ 32 - 2"
  then have "unat (i st) = 2 + length (cout st)"
    using unat_magnitude [of "length (cout st)"] by (simp add: threshold_inv_def)
  then show "bound st = 1000 * 10 ^ (unat (i st) - 2)"
    using a by (simp add: threshold_inv_def)
qed

theorem c6_threshold_invariant_witness:
  "threshold_inv init_state
   \<and> threshold_inv (scale_emit init_state)
   \<and> bound init_state < bound (scale_emit init_state)
   \<and> (\<exists>st'. process_line init_state ''5000 7 11 13'' = Inr st' \<and> threshold_inv st'
          \<and> bound init_state \<le> bound st')
   \<and> length (cout init_state) < 2 ^ 32 - 2
   \<and> bound init_state = 1000 * 10 ^ (unat (i init_state) - 2)"
proof -
  obtain st' where step: "process_line init_state ''5000 7 11 13'' = Inr st'"
    by (simp add: parse_simps counter_simps)
  have small: "length (cout init_state) < 2 ^ 32 - 2"
    by (simp add: init_state_def)
  show ?thesis
    using c6_threshold_invariant [of init_state "''5000 7 11 13''" st' "[]"] step small
    by blast
qed

text \<open>
  C6 (as stated) fails once \<open>i\<close>, a 32-bit counter, has wrapped around: the single line
  made of the digit 1 followed by \<open>2 ^ 32 + 3\<close> zeros takes the loop through \<open>2 ^ 32\<close>
  passes, after which \<open>i\<close> is 2 again and the bound is not 1000.
\<close>

theorem c6_counter_wraps_counterexample:
  "case run_lines init_state [CHR ''1'' # replicate (2 ^ 32 + 3) (CHR ''0'')] of
     (st, r) \<Rightarrow> r = None \<and> i st = 2 \<and> bound st \<noteq> 1000 * 10 ^ (unat (i st) - 2)"
  by (rule counter_wraps) simp_all

text \<open>
  C7 (as the code has it). After a run that reached the end, the values of the final
  row (buckets 4 to 15) and the values of the eight buckets that are never printed
  (0 to 3 and 16 to 19) add up to the number of lines: always in 32-bit arithmetic, and
  as natural numbers when the input has fewer than \<open>2 ^ 32\<close> lines. \<^verbatim>\<open>counter\<close> holds
  the number of lines in 64 bits.
\<close>

theorem c7_conservation:
  assumes "counter_lines ls = (st, None)"
  shows "sum_list (last (cout st))
           + sum_list (map (\<lambda>j. prime_count st ! j) ([0..<4] @ [16..<20])) = of_nat (length ls)
         \<and> counter st = of_nat (length ls)
         \<and> (length ls < 2 ^ 32 \<longrightarrow>
              sum_list (map unat (last (cout st)))
                + sum_list (map (\<lambda>j. unat (prime_count st ! j)) ([0..<4] @ [16..<20]))
              = length ls)"
proof -
  obtain st0 where run: "run_lines init_state ls = (st0, None)" and st: "st = final_row st0"
    using assms by (rule counter_lines_None)
  have pos: "0 < bound init_state" and len: "length (prime_count init_state) = 20"
    by (simp_all add: init_state_def)
  have len0: "length (prime_count st0) = 20"
    using run_lines_tally [OF pos len run] by blast
  have last: "last (cout st) = print_row (prime_count st0)"
    and pc: "prime_count st = prime_count st0" and cnt: "counter st = counter st0"
    by (simp_all add: st final_row_def)
  have sums: "sum_list (prime_count st0) = of_nat (length ls)"
      "counter st0 = of_nat (length ls)"
    using run_lines_sum [OF pos len run] by (simp_all add: init_state_def sum_list_replicate)
  have "sum_list (map (\<lambda>x. x) (prime_count st0))
      = sum_list (map (\<lambda>x. x) (print_row (prime_count st0)))
        + sum_list (map (\<lambda>j. prime_count st0 ! j) ([0..<4] @ [16..<20]))"
    using len0 by (rule sum_list_buckets)
  then have words: "sum_list (last (cout st))
      + sum_list (map (\<lambda>j. prime_count st ! j) ([0..<4] @ [16..<20])) = of_nat (length ls)"
    using sums(1) by (simp add: last pc)
  have nats: "sum_list (map unat (last (cout st)))
      + sum_list (map (\<lambda>j. unat (prime_count st ! j)) ([0..<4] @ [16..<20])) = length ls"
    if small: "length ls < 2 ^ 32"
  proof -
    have zero: "sum_list (map unat (prime_count init_state)) = 0"
      by (simp add: init_state_def)
    have "sum_list (map unat (prime_count init_state)) + length ls < 2 ^ 32"
      unfolding zero using small by simp
    from run_lines_sum_unat [OF pos len run this]
    have "sum_list (map unat (prime_count st0)) = length ls"
      unfolding zero by simp
    moreover have "sum_list (map unat (prime_count st0))
      = sum_list (map unat (print_row (prime_count st0)))
        + sum_list (map (\<lambda>j. unat (prime_count st0 ! j)) ([0..<4] @ [16..<20]))"
      using len0 by (rule sum_list_buckets)
    ultimately show ?thesis by (simp add: last pc)
  qed
  show ?thesis
    using words nats sums(2) cnt by simp
qed

theorem c7_conservation_witness:
  "counter_lines [''6 2 3'']
     = (\<lparr> bound = 1000, counter = 1, i = 2,
           prime_count = [0, 0, 0, 1, 0, 0, 0, 0, 0, 0, 0, 0, 0, 0, 0, 0, 0, 0, 0, 0],
           cout = [[0, 0, 0, 0, 0, 0, 0, 0, 0, 0, 0, 0]] \<rparr>, None)
   \<and> length [''6 2 3''] < 2 ^ 32
   \<and> sum_list (map unat (last (cout
         \<lparr> bound = 1000, counter = 1, i = 2,
           prime_count = [0, 0, 0, 1, 0, 0, 0, 0, 0, 0, 0, 0, 0, 0, 0, 0, 0, 0, 0, 0],
           cout = [[0, 0, 0, 0, 0, 0, 0, 0, 0, 0, 0, 0]] \<rparr>)))
       + sum_list (map (\<lambda>j. unat (prime_count
         \<lparr> bound = 1000, counter = 1, i = 2,
           prime_count = [0, 0, 0, 1, 0, 0, 0, 0, 0, 0, 0, 0, 0, 0, 0, 0, 0, 0, 0, 0],
           cout = [[0, 0, 0, 0, 0, 0, 0, 0, 0, 0, 0, 0]] \<rparr> ! j)) ([0..<4] @ [16..<20]))
     = length [''6 2 3'']"
proof -
  have small: "length [''6 2 3''] < 2 ^ 32"
    by simp
  show ?thesis
    using c7_conservation [OF ex_run_short] ex_run_short small by blast
qed

text \<open>
  C7 (as stated) fails: a principal with two divisors is counted in bucket 3, which is
  neither printed nor bucket 19, so for this input of one record the sum named by the
  claim is 0.
\<close>

theorem c7_unreported_bucket_counterexample:
  "length [''6 2 3''] = 1
   \<and> (case counter_lines [''6 2 3''] of
        (st, r) \<Rightarrow> r = None
          \<and> sum_list (last (cout st)) + prime_count st ! 19 = 0
          \<and> sum_list (map unat (last (cout st))) + unat (prime_count st ! 19) = 0)"
  by (simp add: ex_run_short)

text \<open>
  C8 (as the code has it). The token loop throws \<^verbatim>\<open>std::invalid_argument\<close>, and
  nothing else, exactly when some token of the line is refused by the base-10 conversion.
  When every token converts, the loop yields the converted tokens in order, and yields
  none exactly on the empty line. The empty line is therefore no parse failure: it leaves
  \<^verbatim>\<open>v_nums\<close> empty, and both programs then read \<^verbatim>\<open>v_nums[0]\<close> out of range.
  Every non-empty token made of decimal digits converts.
\<close>

theorem c8_parse_line_failure:
  "(parse_line line = Inl InvalidArgument
      \<longleftrightarrow> (\<exists>t \<in> set (line_tokens line). mpz_set_str t = None))
   \<and> (\<forall>e. parse_line line = Inl e \<longrightarrow> e = InvalidArgument)
   \<and> ((\<forall>t \<in> set (line_tokens line). mpz_set_str t \<noteq> None) \<longrightarrow>
        (\<exists>zs. parse_line line = Inr zs \<and> map Some zs = map mpz_set_str (line_tokens line)
              \<and> (zs = [] \<longleftrightarrow> line = [])))
   \<and> (line = [] \<longrightarrow> parse_line line = Inr [] \<and> process_line st line = Inl OutOfBounds
                     \<and> filter_line out line = Inl OutOfBounds)
   \<and> (\<forall>t. t \<noteq> [] \<and> set t \<subseteq> set ''0123456789'' \<longrightarrow> mpz_set_str t \<noteq> None)"
proof (intro conjI)
  show "parse_line line = Inl InvalidArgument
      \<longleftrightarrow> (\<exists>t \<in> set (line_tokens line). mpz_set_str t = None)"
    by (simp add: parse_line_def push_back_all_eq)
  show "\<forall>e. parse_line line = Inl e \<longrightarrow> e = InvalidArgument"
    using push_back_all_error by (simp add: parse_line_def)
  show "(\<forall>t \<in> set (line_tokens line). mpz_set_str t \<noteq> None) \<longrightarrow>
        (\<exists>zs. parse_line line = Inr zs \<and> map Some zs = map mpz_set_str (line_tokens line)
              \<and> (zs = [] \<longleftrightarrow> line = []))"
  proof
    assume "\<forall>t \<in> set (line_tokens line). mpz_set_str t \<noteq> None"
    then obtain zs where zs: "parse_line line = Inr zs"
        "map Some zs = map mpz_set_str (line_tokens line)"
      using push_back_all_succeeds [of "line_tokens line"] by (auto simp: parse_line_def)
    have "length zs = length (line_tokens line)"
      using zs(1) by (rule parse_line_length)
    then have "zs = [] \<longleftrightarrow> line = []"
      using line_tokens_Nil_iff [of line] by auto
    with zs show "\<exists>zs. parse_line line = Inr zs
        \<and> map Some zs = map mpz_set_str (line_tokens line) \<and> (zs = [] \<longleftrightarrow> line = [])"
      by blast
  qed
  show "line = [] \<longrightarrow> parse_line line = Inr [] \<and> process_line st line = Inl OutOfBounds
                     \<and> filter_line out line = Inl OutOfBounds"
    by (simp add: parse_line_def line_tokens_def process_line_def filter_line_def)
  show "\<forall>t. t \<noteq> [] \<and> set t \<subseteq> set ''0123456789'' \<longrightarrow> mpz_set_str t \<noteq> None"
    using mpz_set_str_decimal by blast
qed

theorem c8_parse_line_failure_witness:
  "parse_line ''561 3 1x'' = Inl InvalidArgument
   \<and> (\<exists>zs. parse_line ''561 3 11 17'' = Inr zs \<and> zs \<noteq> [])
   \<and> parse_line [] = Inr [] \<and> process_line init_state [] = Inl OutOfBounds
   \<and> mpz_set_str ''561'' \<noteq> None"
proof -
  have bad: "\<exists>t \<in> set (line_tokens ''561 3 1x''). mpz_set_str t = None"
    by (simp add: parse_simps)
  have good: "\<forall>t \<in> set (line_tokens ''561 3 11 17''). mpz_set_str t \<noteq> None"
    by (simp add: parse_simps)
  have dec: "''561'' \<noteq> [] \<and> set ''561'' \<subseteq> set ''0123456789''"
    by simp
  show ?thesis
    using c8_parse_line_failure [of "''561 3 1x''" init_state "[]"]
      c8_parse_line_failure [of "''561 3 11 17''" init_state "[]"]
      c8_parse_line_failure [of "[]" init_state "[]"]
      bad good dec
    by (metis list.distinct(1))
qed

text \<open>
  C8 (as stated) fails on the empty line: the token loop does not fail there, and what
  follows is the out-of-range read, not a reported parse failure.
\<close>

theorem c8_empty_line_counterexample:
  "parse_line [] = Inr [] \<and> parse_line [] \<noteq> Inl InvalidArgument
   \<and> process_line init_state [] = Inl OutOfBounds \<and> filter_line [] [] = Inl OutOfBounds"
  by (simp add: parse_simps process_line_def filter_line_def)

text \<open>
  C9. Every line the filter has written, whether or not the run reached the end of the
  input, converts again to a principal and its divisors, and the principal is a multiple
  of 5717264681.
\<close>

theorem c9_filter_roundtrip:
  "\<forall>l \<in> set (fst (imprimitive_main file)).
     \<exists>p ds. parse_line l = Inr (p # ds) \<and> p mod 5717264681 = 0"
proof (cases "file")
  case None
  then show ?thesis by (simp add: imprimitive_main_def)
next
  case (Some content)
  then show ?thesis
    using filter_lines_written [of "[]" "file_lines content"]
    by (simp add: imprimitive_main_def divisor_def)
qed

theorem c9_filter_roundtrip_witness:
  "''5717264681 7 11''
     \<in> set (fst (imprimitive_main
                   (Some (''5717264681 7 11'' @ [CHR 0x0A] @ ''5717264682 2 3'' @ [CHR 0x0A]))))
   \<and> (\<exists>p ds. parse_line ''5717264681 7 11'' = Inr (p # ds) \<and> p mod 5717264681 = 0)"
proof -
  have mem: "''5717264681 7 11''
     \<in> set (fst (imprimitive_main
                   (Some (''5717264681 7 11'' @ [CHR 0x0A] @ ''5717264682 2 3'' @ [CHR 0x0A]))))"
    by (simp add: imprimitive_main_def file_lines_def filter_line_def parse_simps divisor_def
        smod_int_alt_def)
  from c9_filter_roundtrip [rule_format, OF mem]
  have "\<exists>p ds. parse_line ''5717264681 7 11'' = Inr (p # ds) \<and> p mod 5717264681 = 0" .
  with mem show ?thesis by blast
qed

text \<open>
  C10 (as the code has it). On every input of fewer than \<open>2 ^ 32\<close> lines, in the sequence
  of the rows printed (the rows of the threshold loop, then the final row when the run
  reaches the end) every row has twelve values and each value of an earlier row is at
  most the value at the same place of any later row.
\<close>

theorem c10_rows_monotone:
  assumes "length ls < 2 ^ 32"
  shows "\<forall>a b c. a < b \<and> b < length (cout (fst (counter_lines ls))) \<and> c < 12 \<longrightarrow>
           length (cout (fst (counter_lines ls)) ! a) = 12
           \<and> length (cout (fst (counter_lines ls)) ! b) = 12
           \<and> cout (fst (counter_lines ls)) ! a ! c \<le> cout (fst (counter_lines ls)) ! b ! c"
proof (intro allI impI)
  fix a b c :: nat
  let ?rows = "cout (fst (counter_lines ls))"
  assume h: "a < b \<and> b < length ?rows \<and> c < 12"
  have sorted: "sorted_wrt row_le ?rows" and len: "\<forall>r \<in> set ?rows. length r = 12"
    using counter_lines_rows [OF assms] by blast+
  have le: "row_le (?rows ! a) (?rows ! b)"
    using sorted h by (simp add: sorted_wrt_iff_nth_less)
  have la: "length (?rows ! a) = 12" and lb: "length (?rows ! b) = 12"
    using len h by simp_all
  have "c < length (?rows ! a)"
    using la h by simp
  with le have "?rows ! a ! c \<le> ?rows ! b ! c"
    unfolding row_le_def by (rule list_all2_nthD)
  with la lb show "length (?rows ! a) = 12 \<and> length (?rows ! b) = 12
      \<and> ?rows ! a ! c \<le> ?rows ! b ! c"
    by blast
qed


theorem c10_rows_monotone_witness:
  "length [''500 2 5 10'', ''5000 2 4 5 10'', ''50000 2 4 5 8 10'', ''500000 2 4 5 8 10 16'']
     < 2 ^ 32
   \<and> (0::nat) < 3
   \<and> 3 < length (cout (fst (counter_lines
         [''500 2 5 10'', ''5000 2 4 5 10'', ''50000 2 4 5 8 10'', ''500000 2 4 5 8 10 16''])))
   \<and> (3::nat) < 12
   \<and> cout (fst (counter_lines
         [''500 2 5 10'', ''5000 2 4 5 10'', ''50000 2 4 5 8 10'', ''500000 2 4 5 8 10 16'']))
        ! 0 ! 3
      \<le> cout (fst (counter_lines
         [''500 2 5 10'', ''5000 2 4 5 10'', ''50000 2 4 5 8 10'', ''500000 2 4 5 8 10 16'']))
        ! 3 ! 3"
proof -
  let ?ls = "[''500 2 5 10'', ''5000 2 4 5 10'', ''50000 2 4 5 8 10'', ''500000 2 4 5 8 10 16'']"
  have small: "length ?ls < 2 ^ 32"
    by simp
  have idx: "(0::nat) < 3 \<and> 3 < length (cout (fst (counter_lines ?ls))) \<and> (3::nat) < 12"
    by (simp add: four_records_run)
  show ?thesis
    using c10_rows_monotone [OF small] small idx by blast
qed

text \<open>
  C10 (as stated) fails when a bucket, a 32-bit counter, wraps around: after one line of
  four tokens a row with the value 1 is printed, and after \<open>2 ^ 32\<close> such lines in all the
  final row shows 0 at that place.
\<close>

theorem c10_bucket_wraps_counterexample:
  "cout (fst (counter_lines
       ([''1 1 1 1'', ''5000 1 1 1''] @ replicate (2 ^ 32 - 2) ''1 1 1 1'')))
     = [[1, 0, 0, 0, 0, 0, 0, 0, 0, 0, 0, 0], [0, 0, 0, 0, 0, 0, 0, 0, 0, 0, 0, 0]]
   \<and> snd (counter_lines
       ([''1 1 1 1'', ''5000 1 1 1''] @ replicate (2 ^ 32 - 2) ''1 1 1 1'')) = None"
  by (rule bucket_wraps) simp

end
